theory Spec2Isabelle
  imports Main "HOL-Library.AList"
begin

section \<open>Values, entities and reflection\<close>

text \<open>
  An \<open>Entity\<close> of the store is a Go interface value: either nil or a pointer to a struct
  with the methods \<open>GetID\<close> and \<open>SetID\<close>. The model has the two struct types of
  \<^verbatim>\<open>flexdb.go\<close> (\<open>GenericEntity\<close>, \<open>MigrationVersion\<close>) and one constructor for a
  struct type of the caller (its type name, its \<open>ID\<close> field, its other fields), such as
  \<open>TestEntity\<close> of the tests. A nil interface is \<open>None\<close> of \<open>entity option\<close>.
  A field value is a string, an int, a bool, a value of a caller's type that implements
  \<open>Comparable\<close> (type name and payload; its kind is not string), or a value of any other
  type (type name only). Entities are values here: the code never writes to a record
  (it never calls \<open>SetID\<close>), and a caller that mutates a record after \<open>Set\<close> is outside
  the model, as are entities that are not pointers to structs.
\<close>

datatype val =
    VString string
  | VInt int
  | VBool bool
  | VComparable string int
  | VOther string

datatype entity =
    GenericEntity string "(string \<times> val) list"
  | MigrationVersion string int
  | UserStruct string string "(string \<times> val) list"

datatype panic =
    ElemOnZeroValue
  | NilDereference
  | InterfaceOnZeroValue
  | NotComparable
  | UserPanic string

datatype error =
    ReadOnlyTransaction
  | InvalidMigrationEntity
  | UserError string
  | IOError string

fun GetID :: "entity \<Rightarrow> string" where
  "GetID (GenericEntity i fs) = i"
| "GetID (MigrationVersion i v) = i"
| "GetID (UserStruct tn i fs) = i"

text \<open>\<open>reflect.ValueOf(e).Elem().FieldByName(field)\<close> for a non-nil entity: \<open>None\<close> is the
  zero Value that reflection returns for a field the struct does not have.\<close>

fun FieldByName :: "entity \<Rightarrow> string \<Rightarrow> val option" where
  "FieldByName (GenericEntity i fs) f =
     (if f = ''ID'' then Some (VString i)
      else if f = ''Fields'' then Some (VOther ''map[string]interface {}'')
      else None)"
| "FieldByName (MigrationVersion i v) f =
     (if f = ''ID'' then Some (VString i)
      else if f = ''Version'' then Some (VInt v)
      else None)"
| "FieldByName (UserStruct tn i fs) f =
     (if f = ''ID'' then Some (VString i) else map_of fs f)"

text \<open>\<open>reflect.Value.String()\<close>: the string itself for a string, and a description of the
  type for everything else; it does not panic.\<close>

fun Value_String :: "val option \<Rightarrow> string" where
  "Value_String None = ''<invalid Value>''"
| "Value_String (Some (VString s)) = s"
| "Value_String (Some (VInt n)) = ''<int Value>''"
| "Value_String (Some (VBool b)) = ''<bool Value>''"
| "Value_String (Some (VComparable tn k)) = ''<'' @ tn @ '' Value>''"
| "Value_String (Some (VOther tn)) = ''<'' @ tn @ '' Value>''"

text \<open>\<open>reflect.ValueOf(entity).Elem().FieldByName(field).String()\<close>, as \<open>AddIndex\<close> and
  \<open>Commit\<close> call it: \<open>Elem\<close> panics on the zero Value of a nil interface.\<close>

fun field_String :: "entity option \<Rightarrow> string \<Rightarrow> panic + string" where
  "field_String None f = Inl ElemOnZeroValue"
| "field_String (Some e) f = Inr (Value_String (FieldByName e f))"

section \<open>The database and a transaction\<close>

text \<open>
  A Go map that the code iterates is an association list (its keys distinct); the model
  iterates in list order where Go's order is unspecified. The cache of \<open>go-cache\<close> is only
  read and written by key and is a partial function. \<open>disk\<close> is the persisted file: absent,
  holding the snapshot of \<open>data\<close> that \<open>save\<close> wrote, or damaged by a write that failed.
  Hooks and migrations are functions over the database and are passed to the operations
  that run them; the mutex is not modelled.
\<close>

datatype disk_file =
    Missing
  | Written "(string \<times> (string \<times> entity) list) list"
  | Damaged

record database =
  data :: "(string \<times> (string \<times> entity) list) list"
  indexes :: "(string \<times> (string \<times> (string \<times> string list) list) list) list"
  cache :: "string \<Rightarrow> entity option"
  disk :: disk_file

record transaction =
  readOnly :: bool
  changes :: "(string \<times> (string \<times> entity option) list) list"
  committed :: bool

type_synonym world = "transaction \<times> database"

type_synonym hook = "string \<Rightarrow> entity option \<Rightarrow> world \<Rightarrow> panic + (error option \<times> world)"

definition getCacheKey :: "string \<Rightarrow> string \<Rightarrow> string" where
  "getCacheKey entityType i = entityType @ '':'' @ i"

definition Transact :: "bool \<Rightarrow> transaction" where
  "Transact ro = \<lparr>readOnly = ro, changes = [], committed = False\<rparr>"

text \<open>The part of \<open>Get\<close> after the overlay: the cache, then the canonical map, which fills
  the cache on a hit.\<close>

definition store_Get :: "string \<Rightarrow> string \<Rightarrow> database \<Rightarrow> (entity option \<times> bool) \<times> database" where
  "store_Get entityType i db =
     (case cache db (getCacheKey entityType i) of
        Some cached \<Rightarrow> ((Some cached, True), db)
      | None \<Rightarrow>
          (case map_of (data db) entityType of
             None \<Rightarrow> ((None, False), db)
           | Some entities \<Rightarrow>
               (case map_of entities i of
                  None \<Rightarrow> ((None, False), db)
                | Some e \<Rightarrow>
                    ((Some e, True),
                     db\<lparr>cache := (cache db)(getCacheKey entityType i \<mapsto> e)\<rparr>))))"

definition Get :: "string \<Rightarrow> string \<Rightarrow> transaction \<Rightarrow> database \<Rightarrow> (entity option \<times> bool) \<times> database" where
  "Get entityType i tx db =
     (case map_of (changes tx) entityType of
        None \<Rightarrow> store_Get entityType i db
      | Some changedEntities \<Rightarrow>
          (case map_of changedEntities i of
             None \<Rightarrow> store_Get entityType i db
           | Some ent \<Rightarrow> ((ent, True), db)))"

text \<open>\<open>GetAll\<close>: the records of the canonical map for the type, then the overlay folded
  over that slice: a tombstone removes the first element with the id, a staged record
  replaces the first element with the id or is appended.\<close>

fun remove_id :: "string \<Rightarrow> entity list \<Rightarrow> entity list" where
  "remove_id i [] = []"
| "remove_id i (e # es) = (if GetID e = i then es else e # remove_id i es)"

fun replace_id :: "string \<Rightarrow> entity \<Rightarrow> entity list \<Rightarrow> entity list" where
  "replace_id i n [] = [n]"
| "replace_id i n (e # es) = (if GetID e = i then n # es else e # replace_id i n es)"

fun merge_change :: "string \<times> entity option \<Rightarrow> entity list \<Rightarrow> entity list" where
  "merge_change (i, None) es = remove_id i es"
| "merge_change (i, Some n) es = replace_id i n es"

definition GetAll :: "string \<Rightarrow> transaction \<Rightarrow> database \<Rightarrow> entity list" where
  "GetAll entityType tx db =
     (let entities = (case map_of (data db) entityType of
                        None \<Rightarrow> []
                      | Some entityMap \<Rightarrow> map snd entityMap)
      in case map_of (changes tx) entityType of
           None \<Rightarrow> entities
         | Some changedEntities \<Rightarrow> fold merge_change changedEntities entities)"

section \<open>Staging: hooks, Set, Delete, Rollback\<close>

text \<open>A hook chain runs in registration order and stops at the first hook that returns an
  error or panics. A hook receives the transaction, which points to the database, so it
  is a function on both.\<close>

fun run_hooks :: "hook list \<Rightarrow> string \<Rightarrow> entity option \<Rightarrow> world \<Rightarrow> panic + (error option \<times> world)" where
  "run_hooks [] entityType ent w = Inr (None, w)"
| "run_hooks (h # hs) entityType ent w =
     (case h entityType ent w of
        Inl p \<Rightarrow> Inl p
      | Inr (Some err, w') \<Rightarrow> Inr (Some err, w')
      | Inr (None, w') \<Rightarrow> run_hooks hs entityType ent w')"

text \<open>\<open>tx.changes[entityType][id] = entity\<close>, the inner map made first when it is nil.\<close>

definition stage :: "string \<Rightarrow> string \<Rightarrow> entity option \<Rightarrow> transaction \<Rightarrow> transaction" where
  "stage entityType i ent tx =
     tx\<lparr>changes :=
          AList.update entityType
            (AList.update i ent
               (case map_of (changes tx) entityType of None \<Rightarrow> [] | Some m \<Rightarrow> m))
            (changes tx)\<rparr>"

text \<open>\<open>Set\<close>: \<open>entity.GetID()\<close> on a nil interface is a nil dereference, after the
  pre-set hooks have run.\<close>

definition Set :: "(string \<Rightarrow> hook list) \<Rightarrow> string \<Rightarrow> entity option \<Rightarrow> world \<Rightarrow> panic + (error option \<times> world)" where
  "Set hooks entityType ent w =
     (if readOnly (fst w) then Inr (Some ReadOnlyTransaction, w)
      else case run_hooks (hooks ''pre-set'') entityType ent w of
             Inl p \<Rightarrow> Inl p
           | Inr (Some err, w1) \<Rightarrow> Inr (Some err, w1)
           | Inr (None, w1) \<Rightarrow>
               (case ent of
                  None \<Rightarrow> Inl NilDereference
                | Some e \<Rightarrow>
                    run_hooks (hooks ''post-set'') entityType ent
                      (stage entityType (GetID e) ent (fst w1), snd w1)))"

definition Delete :: "(string \<Rightarrow> hook list) \<Rightarrow> string \<Rightarrow> string \<Rightarrow> world \<Rightarrow> panic + (error option \<times> world)" where
  "Delete hooks entityType i w =
     (if readOnly (fst w) then Inr (Some ReadOnlyTransaction, w)
      else case Get entityType i (fst w) (snd w) of
        ((ent, found), db1) \<Rightarrow>
          (case (if found then run_hooks (hooks ''pre-delete'') entityType ent (fst w, db1)
                 else Inr (None, (fst w, db1))) of
             Inl p \<Rightarrow> Inl p
           | Inr (Some err, w2) \<Rightarrow> Inr (Some err, w2)
           | Inr (None, w2) \<Rightarrow>
               (if found
                then run_hooks (hooks ''post-delete'') entityType ent
                       (stage entityType i None (fst w2), snd w2)
                else Inr (None, (stage entityType i None (fst w2), snd w2)))))"

definition Rollback :: "transaction \<Rightarrow> transaction" where
  "Rollback tx = tx\<lparr>changes := []\<rparr>"

section \<open>Commit, save and AddIndex\<close>

text \<open>What the environment does to \<open>save\<close>: it succeeds, or \<open>json.MarshalIndent\<close>,
  \<open>os.MkdirAll\<close> or \<open>os.WriteFile\<close> fails; a failed write leaves the file in a state the
  environment chooses.\<close>

datatype save_io =
    SaveOk
  | MarshalFails string
  | MkdirFails string
  | WriteFails string disk_file

definition save :: "save_io \<Rightarrow> database \<Rightarrow> error option \<times> database" where
  "save io db =
     (case io of
        SaveOk \<Rightarrow> (None, db\<lparr>disk := Written (data db)\<rparr>)
      | MarshalFails msg \<Rightarrow> (Some (IOError msg), db)
      | MkdirFails msg \<Rightarrow> (Some (IOError msg), db)
      | WriteFails msg f \<Rightarrow> (Some (IOError msg), db\<lparr>disk := f\<rparr>))"

text \<open>\<open>m[k]\<close> of a Go map whose values are maps or slices: the empty one when the key
  is absent.\<close>

definition at_key :: "('k \<times> 'v list) list \<Rightarrow> 'k \<Rightarrow> 'v list" where
  "at_key m k = (case map_of m k of None \<Rightarrow> [] | Some v \<Rightarrow> v)"

text \<open>\<open>index[value] = append(index[value], id)\<close>.\<close>

definition bucket_append :: "string \<Rightarrow> string \<Rightarrow> (string \<times> string list) list \<Rightarrow> (string \<times> string list) list" where
  "bucket_append v i index = AList.update v (at_key index v @ [i]) index"

text \<open>The loop \<open>for field, index := range tx.db.indexes[entityType]\<close> of \<open>Commit\<close>, for one
  staged entry: the entity is read by reflection also when it is the tombstone.\<close>

fun update_indexes :: "entity option \<Rightarrow> string \<Rightarrow> (string \<times> (string \<times> string list) list) list
    \<Rightarrow> panic + (string \<times> (string \<times> string list) list) list" where
  "update_indexes ent i [] = Inr []"
| "update_indexes ent i ((field, index) # rest) =
     (case field_String ent field of
        Inl p \<Rightarrow> Inl p
      | Inr v \<Rightarrow>
          (case update_indexes ent i rest of
             Inl p \<Rightarrow> Inl p
           | Inr rest' \<Rightarrow> Inr ((field, bucket_append v i index) # rest')))"

text \<open>The body of the inner loop of \<open>Commit\<close> for one \<open>(id, entity)\<close> of the overlay.\<close>

definition apply_change :: "string \<Rightarrow> string \<times> entity option \<Rightarrow> database \<Rightarrow> panic + database" where
  "apply_change entityType c db =
     (let i = fst c; ent = snd c;
          db1 = (case ent of
                   None \<Rightarrow>
                     db\<lparr>data := AList.update entityType
                                   (AList.delete i (at_key (data db) entityType)) (data db),
                        cache := (cache db)(getCacheKey entityType i := None)\<rparr>
                 | Some e \<Rightarrow>
                     db\<lparr>data := AList.update entityType
                                   (AList.update i e (at_key (data db) entityType)) (data db),
                        cache := (cache db)(getCacheKey entityType i \<mapsto> e)\<rparr>)
      in case map_of (indexes db1) entityType of
           None \<Rightarrow> Inr db1
         | Some ixs \<Rightarrow>
             (case update_indexes ent i ixs of
                Inl p \<Rightarrow> Inl p
              | Inr ixs' \<Rightarrow> Inr (db1\<lparr>indexes := AList.update entityType ixs' (indexes db1)\<rparr>)))"

fun apply_entities :: "string \<Rightarrow> (string \<times> entity option) list \<Rightarrow> database \<Rightarrow> panic + database" where
  "apply_entities entityType [] db = Inr db"
| "apply_entities entityType (c # cs) db =
     (case apply_change entityType c db of
        Inl p \<Rightarrow> Inl p
      | Inr db' \<Rightarrow> apply_entities entityType cs db')"

fun apply_changes :: "(string \<times> (string \<times> entity option) list) list \<Rightarrow> database \<Rightarrow> panic + database" where
  "apply_changes [] db = Inr db"
| "apply_changes ((entityType, entities) # rest) db =
     (case apply_entities entityType entities
             (if map_of (data db) entityType = None
              then db\<lparr>data := AList.update entityType [] (data db)\<rparr> else db) of
        Inl p \<Rightarrow> Inl p
      | Inr db' \<Rightarrow> apply_changes rest db')"

text \<open>\<open>Commit\<close>: nothing for a read-only transaction; otherwise the overlay is applied,
  the transaction is marked committed, and the result of \<open>save\<close> is returned. A panic
  leaves through \<open>Inl\<close>.\<close>

definition Commit :: "save_io \<Rightarrow> world \<Rightarrow> panic + (error option \<times> world)" where
  "Commit io w =
     (if readOnly (fst w) then Inr (None, w)
      else case apply_changes (changes (fst w)) (snd w) of
             Inl p \<Rightarrow> Inl p
           | Inr db' \<Rightarrow>
               (case save io db' of
                  (err, db'') \<Rightarrow> Inr (err, ((fst w)\<lparr>committed := True\<rparr>, db''))))"

text \<open>\<open>AddIndex\<close> replaces the index of the field by one built from the records of the
  canonical map.\<close>

fun index_all :: "string \<Rightarrow> (string \<times> entity) list \<Rightarrow> (string \<times> string list) list \<Rightarrow> (string \<times> string list) list" where
  "index_all field [] index = index"
| "index_all field ((i, e) # rest) index =
     index_all field rest (bucket_append (Value_String (FieldByName e field)) i index)"

definition AddIndex :: "string \<Rightarrow> string \<Rightarrow> database \<Rightarrow> database" where
  "AddIndex entityType field db =
     db\<lparr>indexes :=
          AList.update entityType
            (AList.update field
               (index_all field (at_key (data db) entityType) [])
               (at_key (indexes db) entityType))
            (indexes db)\<rparr>"

text \<open>\<open>NewDatabase\<close> when no file exists at the path: the empty store. Loading a file is
  not modelled.\<close>

definition NewDatabase :: database where
  "NewDatabase = \<lparr>data = [], indexes = [], cache = Map.empty, disk = Missing\<rparr>"

section \<open>Queries\<close>

record query =
  q_entityType :: string
  q_filters :: "(entity \<Rightarrow> panic + bool) list"
  q_limit :: int
  q_offset :: int
  q_orderBy :: string
  q_orderDesc :: bool

definition NewQuery :: "string \<Rightarrow> query" where
  "NewQuery entityType =
     \<lparr>q_entityType = entityType, q_filters = [], q_limit = 0, q_offset = 0,
      q_orderBy = [], q_orderDesc = False\<rparr>"

definition OrderBy :: "string \<Rightarrow> bool \<Rightarrow> query \<Rightarrow> query" where
  "OrderBy field desc q = q\<lparr>q_orderBy := field, q_orderDesc := desc\<rparr>"

fun all_match :: "(entity \<Rightarrow> panic + bool) list \<Rightarrow> entity \<Rightarrow> panic + bool" where
  "all_match [] e = Inr True"
| "all_match (f # fs) e =
     (case f e of
        Inl p \<Rightarrow> Inl p
      | Inr False \<Rightarrow> Inr False
      | Inr True \<Rightarrow> all_match fs e)"

fun filter_results :: "(entity \<Rightarrow> panic + bool) list \<Rightarrow> entity list \<Rightarrow> panic + entity list" where
  "filter_results fs [] = Inr []"
| "filter_results fs (e # es) =
     (case all_match fs e of
        Inl p \<Rightarrow> Inl p
      | Inr m \<Rightarrow>
          (case filter_results fs es of
             Inl p \<Rightarrow> Inl p
           | Inr r \<Rightarrow> Inr (if m then e # r else r)))"

text \<open>\<open>v.Interface().(Comparable)\<close>: \<open>Interface\<close> panics on the zero Value of a missing
  field, and the type assertion panics on a value whose type has no \<open>Compare\<close> method.\<close>

fun as_Comparable :: "val option \<Rightarrow> panic + val" where
  "as_Comparable None = Inl InterfaceOnZeroValue"
| "as_Comparable (Some (VComparable tn k)) = Inr (VComparable tn k)"
| "as_Comparable (Some v) = Inl NotComparable"

text \<open>The comparison function that \<open>Execute\<close> gives to \<open>sort.Slice\<close>; \<open>Compare\<close> is the
  method of the caller's type.\<close>

definition order_less :: "(val \<Rightarrow> val \<Rightarrow> panic + int) \<Rightarrow> string \<Rightarrow> bool \<Rightarrow> entity \<Rightarrow> entity \<Rightarrow> panic + bool" where
  "order_less Compare field desc ei ej =
     (case as_Comparable (FieldByName ei field) of
        Inl p \<Rightarrow> Inl p
      | Inr ci \<Rightarrow>
          (case as_Comparable (FieldByName ej field) of
             Inl p \<Rightarrow> Inl p
           | Inr cj \<Rightarrow>
               (case Compare ci cj of
                  Inl p \<Rightarrow> Inl p
                | Inr c \<Rightarrow> Inr (if desc then c > 0 else c < 0))))"

text \<open>\<open>sort.Slice\<close> of the Go library sorts a slice of at most 12 elements by insertion:
  element \<open>i\<close> moves towards the front while it is less than its predecessor. \<open>sift\<close> works
  on the reversed sorted prefix. The model follows this path for every length; the
  library's algorithm for longer slices is not modelled.\<close>

fun sift :: "('a \<Rightarrow> 'a \<Rightarrow> panic + bool) \<Rightarrow> 'a \<Rightarrow> 'a list \<Rightarrow> panic + 'a list" where
  "sift lt x [] = Inr [x]"
| "sift lt x (y # ys) =
     (case lt x y of
        Inl p \<Rightarrow> Inl p
      | Inr True \<Rightarrow> (case sift lt x ys of Inl p \<Rightarrow> Inl p | Inr r \<Rightarrow> Inr (y # r))
      | Inr False \<Rightarrow> Inr (x # y # ys))"

fun insertion_loop :: "('a \<Rightarrow> 'a \<Rightarrow> panic + bool) \<Rightarrow> 'a list \<Rightarrow> 'a list \<Rightarrow> panic + 'a list" where
  "insertion_loop lt front [] = Inr (rev front)"
| "insertion_loop lt front (x # xs) =
     (case sift lt x front of
        Inl p \<Rightarrow> Inl p
      | Inr front' \<Rightarrow> insertion_loop lt front' xs)"

definition sort_Slice :: "('a \<Rightarrow> 'a \<Rightarrow> panic + bool) \<Rightarrow> 'a list \<Rightarrow> panic + 'a list" where
  "sort_Slice lt xs = insertion_loop lt [] xs"

definition Execute :: "(val \<Rightarrow> val \<Rightarrow> panic + int) \<Rightarrow> query \<Rightarrow> transaction \<Rightarrow> database
    \<Rightarrow> panic + (entity list \<times> error option)" where
  "Execute Compare q tx db =
     (case filter_results (q_filters q) (GetAll (q_entityType q) tx db) of
        Inl p \<Rightarrow> Inl p
      | Inr results \<Rightarrow>
          (case (if q_orderBy q \<noteq> []
                 then sort_Slice (order_less Compare (q_orderBy q) (q_orderDesc q)) results
                 else Inr results) of
             Inl p \<Rightarrow> Inl p
           | Inr ordered \<Rightarrow>
               (if q_offset q > 0 \<and> q_offset q \<ge> int (length ordered) then Inr ([], None)
                else let r1 = (if q_offset q > 0 then drop (nat (q_offset q)) ordered else ordered);
                         r2 = (if q_limit q > 0 \<and> q_limit q < int (length r1)
                               then take (nat (q_limit q)) r1 else r1)
                     in Inr (r2, None))))"

section \<open>Migrations\<close>

record migration =
  Version :: int
  Up :: "world \<Rightarrow> panic + (error option \<times> world)"
  Down :: "world \<Rightarrow> panic + (error option \<times> world)"

definition AddMigration :: "int \<Rightarrow> (world \<Rightarrow> panic + (error option \<times> world))
    \<Rightarrow> (world \<Rightarrow> panic + (error option \<times> world)) \<Rightarrow> migration list \<Rightarrow> migration list" where
  "AddMigration v up down ms = ms @ [\<lparr>Version = v, Up = up, Down = down\<rparr>]"

definition getCurrentVersion :: "transaction \<Rightarrow> database \<Rightarrow> (int \<times> error option) \<times> database" where
  "getCurrentVersion tx db =
     (case Get ''migration'' ''current_version'' tx db of
        ((ent, found), db') \<Rightarrow>
          (if \<not> found then ((0, None), db')
           else case ent of
                  Some (MigrationVersion i v) \<Rightarrow> ((v, None), db')
                | _ \<Rightarrow> ((0, Some InvalidMigrationEntity), db')))"

definition setCurrentVersion :: "(string \<Rightarrow> hook list) \<Rightarrow> int \<Rightarrow> world \<Rightarrow> panic + (error option \<times> world)" where
  "setCurrentVersion hooks v w =
     Set hooks ''migration'' (Some (MigrationVersion ''current_version'' v)) w"

text \<open>The loop of \<open>Migrate\<close>. The third component of the result is not in the source: it
  records the versions whose up-function was called, in the order of the calls.\<close>

fun run_migrations :: "(string \<Rightarrow> hook list) \<Rightarrow> int \<Rightarrow> int \<Rightarrow> migration list \<Rightarrow> world
    \<Rightarrow> panic + (error option \<times> world \<times> int list)" where
  "run_migrations hooks currentVersion targetVersion [] w = Inr (None, w, [])"
| "run_migrations hooks currentVersion targetVersion (m # ms) w =
     (if Version m > currentVersion \<and> Version m \<le> targetVersion
      then case Up m w of
             Inl p \<Rightarrow> Inl p
           | Inr (Some err, w1) \<Rightarrow> Inr (Some err, w1, [Version m])
           | Inr (None, w1) \<Rightarrow>
               (case setCurrentVersion hooks (Version m) w1 of
                  Inl p \<Rightarrow> Inl p
                | Inr (Some err, w2) \<Rightarrow> Inr (Some err, w2, [Version m])
                | Inr (None, w2) \<Rightarrow>
                    (case run_migrations hooks currentVersion targetVersion ms w2 of
                       Inl p \<Rightarrow> Inl p
                     | Inr (err, w3, called) \<Rightarrow> Inr (err, w3, Version m # called)))
      else run_migrations hooks currentVersion targetVersion ms w)"

text \<open>\<open>Migrate\<close> opens a write transaction, reads the version once, runs the loop and
  commits; the deferred \<open>Rollback\<close> empties the overlay on every return. The result holds
  the transaction as \<open>Migrate\<close> leaves it.\<close>

definition Migrate :: "save_io \<Rightarrow> (string \<Rightarrow> hook list) \<Rightarrow> migration list \<Rightarrow> int \<Rightarrow> database
    \<Rightarrow> panic + (error option \<times> world \<times> int list)" where
  "Migrate io hooks migrations targetVersion db =
     (case getCurrentVersion (Transact False) db of
        ((currentVersion, Some err), db1) \<Rightarrow>
          Inr (Some err, (Rollback (Transact False), db1), [])
      | ((currentVersion, None), db1) \<Rightarrow>
          (case run_migrations hooks currentVersion targetVersion migrations
                  (Transact False, db1) of
             Inl p \<Rightarrow> Inl p
           | Inr (Some err, w, called) \<Rightarrow> Inr (Some err, (Rollback (fst w), snd w), called)
           | Inr (None, w, called) \<Rightarrow>
               (case Commit io w of
                  Inl p \<Rightarrow> Inl p
                | Inr (err, w') \<Rightarrow> Inr (err, (Rollback (fst w'), snd w'), called))))"

section \<open>Properties and example states\<close>

text \<open>An entity type has a registered index when \<open>db.indexes[entityType]\<close> is not empty.\<close>

definition indexed :: "database \<Rightarrow> string \<Rightarrow> bool" where
  "indexed db entityType \<longleftrightarrow> at_key (indexes db) entityType \<noteq> []"

text \<open>The example states: no hook is registered; \<open>alice\<close> and \<open>bob\<close> are two values of the
  \<open>TestEntity\<close> of the tests with the same id; \<open>db_index\<close> is the fresh store after
  \<open>AddIndex("test", "Name")\<close>, \<open>db_alice_indexed\<close> after the commit of \<open>alice\<close>,
  \<open>db_bob_indexed\<close> after the later commit of \<open>bob\<close>.\<close>

definition no_hooks :: "string \<Rightarrow> hook list" where
  "no_hooks operation = []"

definition alice :: entity where
  "alice = UserStruct ''TestEntity'' ''1'' [(''Name'', VString ''Alice''), (''Value'', VInt 30)]"

definition bob :: entity where
  "bob = UserStruct ''TestEntity'' ''1'' [(''Name'', VString ''Bob''), (''Value'', VInt 25)]"

definition staged_tx :: "string \<Rightarrow> string \<Rightarrow> entity option \<Rightarrow> transaction" where
  "staged_tx entityType i ent =
     \<lparr>readOnly = False, changes = [(entityType, [(i, ent)])], committed = False\<rparr>"

definition db_index :: database where
  "db_index = \<lparr>data = [], indexes = [(''test'', [(''Name'', [])])], cache = Map.empty, disk = Missing\<rparr>"

definition db_alice_indexed :: database where
  "db_alice_indexed =
     \<lparr>data = [(''test'', [(''1'', alice)])],
      indexes = [(''test'', [(''Name'', [(''Alice'', [''1''])])])],
      cache = [''test:1'' \<mapsto> alice],
      disk = Written [(''test'', [(''1'', alice)])]\<rparr>"

definition db_bob_indexed :: database where
  "db_bob_indexed =
     \<lparr>data = [(''test'', [(''1'', bob)])],
      indexes = [(''test'', [(''Name'', [(''Alice'', [''1'']), (''Bob'', [''1''])])])],
      cache = [''test:1'' \<mapsto> bob],
      disk = Written [(''test'', [(''1'', bob)])]\<rparr>"

definition db_alice :: database where
  "db_alice =
     \<lparr>data = [(''test'', [(''1'', alice)])], indexes = [],
      cache = [''test:1'' \<mapsto> alice],
      disk = Written [(''test'', [(''1'', alice)])]\<rparr>"

text \<open>Two values of the \<open>Todo\<close> of the README, and the store that holds them.\<close>

definition todo1 :: entity where
  "todo1 = UserStruct ''Todo'' ''1'' [(''Task'', VString ''Learn FlexDB''), (''Done'', VBool False)]"

definition todo2 :: entity where
  "todo2 = UserStruct ''Todo'' ''2'' [(''Task'', VString ''Use FlexDB''), (''Done'', VBool False)]"

definition db_todos :: database where
  "db_todos =
     \<lparr>data = [(''todo'', [(''1'', todo1), (''2'', todo2)])], indexes = [],
      cache = [''todo:1'' \<mapsto> todo1, ''todo:2'' \<mapsto> todo2],
      disk = Written [(''todo'', [(''1'', todo1), (''2'', todo2)])]\<rparr>"

text \<open>The record of the canonical map at a type and an id.\<close>

definition record_at :: "database \<Rightarrow> string \<Rightarrow> string \<Rightarrow> entity option" where
  "record_at db entityType i = map_of (at_key (data db) entityType) i"

text \<open>\<open>store_kept db db'\<close>: from \<open>db\<close> to \<open>db'\<close> the canonical map, the indexes and the file
  are the same, and every cache entry is the old one or a copy of the record that the
  canonical map holds for the key's type and id.\<close>

definition store_kept :: "database \<Rightarrow> database \<Rightarrow> bool" where
  "store_kept db db' \<longleftrightarrow>
     data db' = data db \<and> indexes db' = indexes db \<and> disk db' = disk db \<and>
     (\<forall>k. cache db' k = cache db k \<or>
          (\<exists>entityType i. k = getCacheKey entityType i \<and> record_at db entityType i \<noteq> None
              \<and> cache db' k = record_at db entityType i))"

text \<open>A callback (a hook applied to its arguments, an up-function) only stages when it
  uses its transaction to read and to stage: whenever it returns, the transaction is as
  read-only and as committed as before, and the store is kept.\<close>

definition stages_only :: "(world \<Rightarrow> panic + (error option \<times> world)) \<Rightarrow> bool" where
  "stages_only f \<longleftrightarrow>
     (\<forall>w e w'. f w = Inr (e, w') \<longrightarrow>
        readOnly (fst w') = readOnly (fst w) \<and> committed (fst w') = committed (fst w)
        \<and> store_kept (snd w) (snd w'))"

definition hooks_stage_only :: "(string \<Rightarrow> hook list) \<Rightarrow> bool" where
  "hooks_stage_only hooks \<longleftrightarrow>
     (\<forall>operation h entityType ent. h \<in> set (hooks operation) \<longrightarrow> stages_only (h entityType ent))"

text \<open>A sequence of \<open>Set\<close> and \<open>Delete\<close> calls on one transaction. The caller goes on after
  a call that returns an error, so the calls of a caller that stops there are a prefix.\<close>

datatype staging_call =
    CallSet string "entity option"
  | CallDelete string string

fun run_calls :: "(string \<Rightarrow> hook list) \<Rightarrow> staging_call list \<Rightarrow> world \<Rightarrow> panic + world" where
  "run_calls hooks [] w = Inr w"
| "run_calls hooks (CallSet entityType ent # calls) w =
     (case Set hooks entityType ent w of
        Inl p \<Rightarrow> Inl p
      | Inr (err, w') \<Rightarrow> run_calls hooks calls w')"
| "run_calls hooks (CallDelete entityType i # calls) w =
     (case Delete hooks entityType i w of
        Inl p \<Rightarrow> Inl p
      | Inr (err, w') \<Rightarrow> run_calls hooks calls w')"

text \<open>The store of \<open>TestNewDatabase\<close> once \<open>NewDatabase\<close> has loaded its file: the record is in
  the canonical map as a \<open>GenericEntity\<close>, and the cache is empty.\<close>

definition loaded_entity :: entity where
  "loaded_entity = GenericEntity ''1'' [(''ID'', VString ''1''), (''Name'', VString ''Test Entity'')]"

definition db_loaded :: database where
  "db_loaded =
     \<lparr>data = [(''test'', [(''1'', loaded_entity)])], indexes = [], cache = Map.empty,
      disk = Written [(''test'', [(''1'', loaded_entity)])]\<rparr>"

text \<open>Two records whose cache keys coincide: id \<open>7\<close> of the type \<open>user:admin\<close> and id
  \<open>admin:7\<close> of the type \<open>user\<close>; and the store after the commit of the first and after
  the later commit of the second.\<close>

definition admin7 :: entity where
  "admin7 = UserStruct ''User'' ''7'' [(''Name'', VString ''Root'')]"

definition guest :: entity where
  "guest = UserStruct ''User'' ''admin:7'' [(''Name'', VString ''Guest'')]"

definition db_admin :: database where
  "db_admin =
     \<lparr>data = [(''user:admin'', [(''7'', admin7)])], indexes = [],
      cache = [''user:admin:7'' \<mapsto> admin7],
      disk = Written [(''user:admin'', [(''7'', admin7)])]\<rparr>"

definition db_admin_guest :: database where
  "db_admin_guest =
     \<lparr>data = [(''user:admin'', [(''7'', admin7)]), (''user'', [(''admin:7'', guest)])],
      indexes = [],
      cache = [''user:admin:7'' \<mapsto> guest],
      disk = Written [(''user:admin'', [(''7'', admin7)]), (''user'', [(''admin:7'', guest)])]\<rparr>"

text \<open>The staged entry of a transaction for a type and an id: \<open>None\<close> when the overlay has
  none, \<open>Some None\<close> for a tombstone, \<open>Some (Some e)\<close> for a staged record.\<close>

definition staged :: "transaction \<Rightarrow> string \<Rightarrow> string \<Rightarrow> entity option option" where
  "staged tx entityType i = map_of (at_key (changes tx) entityType) i"

text \<open>An overlay is a Go map of Go maps: as association lists, the keys are distinct at
  both levels.\<close>

definition wf_changes :: "(string \<times> (string \<times> entity option) list) list \<Rightarrow> bool" where
  "wf_changes chs \<longleftrightarrow>
     distinct (map fst chs) \<and> (\<forall>entry \<in> set chs. distinct (map fst (snd entry)))"

text \<open>No entry of the overlay for another type has the cache key of \<open>(entityType, i)\<close>.\<close>

definition unshared_key :: "(string \<times> (string \<times> entity option) list) list \<Rightarrow> string \<Rightarrow> string \<Rightarrow> bool" where
  "unshared_key chs entityType i \<longleftrightarrow>
     (\<forall>entry \<in> set chs. \<forall>j \<in> fst ` set (snd entry).
        getCacheKey (fst entry) j = getCacheKey entityType i \<longrightarrow> fst entry = entityType)"

text \<open>The cache drops the entries whose time to live is over: \<open>expire K\<close> removes the
  keys in \<open>K\<close>.\<close>

definition expire :: "string set \<Rightarrow> database \<Rightarrow> database" where
  "expire K db = db\<lparr>cache := (\<lambda>k. if k \<in> K then None else cache db k)\<rparr>"

text \<open>The versions that a run of \<open>Migrate\<close> has to apply, in registration order.\<close>

definition pending :: "int \<Rightarrow> int \<Rightarrow> migration list \<Rightarrow> int list" where
  "pending currentVersion targetVersion ms =
     map Version (filter (\<lambda>m. currentVersion < Version m \<and> Version m \<le> targetVersion) ms)"

text \<open>A callback keeps the overlay a map (it stages through \<open>Set\<close> and \<open>Delete\<close>), and it
  keeps the staged version marker.\<close>

definition keeps_wf :: "(world \<Rightarrow> panic + (error option \<times> world)) \<Rightarrow> bool" where
  "keeps_wf f \<longleftrightarrow>
     (\<forall>w e w'. f w = Inr (e, w') \<longrightarrow> wf_changes (changes (fst w)) \<longrightarrow> wf_changes (changes (fst w')))"

definition hooks_keep_wf :: "(string \<Rightarrow> hook list) \<Rightarrow> bool" where
  "hooks_keep_wf hooks \<longleftrightarrow>
     (\<forall>operation h entityType ent. h \<in> set (hooks operation) \<longrightarrow> keeps_wf (h entityType ent))"

definition keeps_marker :: "(world \<Rightarrow> panic + (error option \<times> world)) \<Rightarrow> bool" where
  "keeps_marker f \<longleftrightarrow>
     (\<forall>w e w'. f w = Inr (e, w') \<longrightarrow>
        staged (fst w') ''migration'' ''current_version''
          = staged (fst w) ''migration'' ''current_version'')"

text \<open>Example migrations: an up-function that does nothing, the one of \<open>TestMigrations\<close>
  that sets a record, and one that fails; versions 2 and 1 registered in this order, and
  versions 1 and 2 registered in ascending order.\<close>

definition noop_up :: "world \<Rightarrow> panic + (error option \<times> world)" where
  "noop_up w = Inr (None, w)"

definition set_alice_up :: "world \<Rightarrow> panic + (error option \<times> world)" where
  "set_alice_up w = Set no_hooks ''test'' (Some alice) w"

definition failing_up :: "world \<Rightarrow> panic + (error option \<times> world)" where
  "failing_up w = Inr (Some (UserError ''migration 2 failed''), w)"

definition migrations_2_1 :: "migration list" where
  "migrations_2_1 = AddMigration 1 noop_up noop_up (AddMigration 2 noop_up noop_up [])"

definition migrations_1_2 :: "migration list" where
  "migrations_1_2 = AddMigration 2 noop_up noop_up (AddMigration 1 set_alice_up noop_up [])"


definition marker :: "int \<Rightarrow> entity" where
  "marker v = MigrationVersion ''current_version'' v"

text \<open>The store that holds nothing but the version marker with version \<open>v\<close>, and the
  transaction that \<open>Migrate\<close> leaves behind after its commit.\<close>

definition db_marker :: "int \<Rightarrow> database" where
  "db_marker v =
     \<lparr>data = [(''migration'', [(''current_version'', marker v)])], indexes = [],
      cache = [''migration:current_version'' \<mapsto> marker v],
      disk = Written [(''migration'', [(''current_version'', marker v)])]\<rparr>"

definition tx_done :: "bool \<Rightarrow> transaction" where
  "tx_done c = \<lparr>readOnly = False, changes = [], committed = c\<rparr>"

text \<open>The store after \<open>Migrate(2)\<close> with the migrations 1 and 2 registered in ascending
  order on a fresh store.\<close>

definition db_migrated :: database where
  "db_migrated =
     \<lparr>data = [(''test'', [(''1'', alice)]), (''migration'', [(''current_version'', marker 2)])],
      indexes = [],
      cache = [''test:1'' \<mapsto> alice, ''migration:current_version'' \<mapsto> marker 2],
      disk = Written [(''test'', [(''1'', alice)]),
                      (''migration'', [(''current_version'', marker 2)])]\<rparr>"




section \<open>Evaluation of the example states\<close>

lemmas run_simps =
  Set_def Delete_def Get_def store_Get_def stage_def Commit_def apply_change_def save_def
  getCacheKey_def at_key_def bucket_append_def Transact_def NewDatabase_def AddIndex_def
  Rollback_def Let_def no_hooks_def staged_tx_def

lemma AddIndex_fresh: "AddIndex ''test'' ''Name'' NewDatabase = db_index"
  by (simp add: run_simps db_index_def)

lemma Set_alice_fresh:
  "Set no_hooks ''test'' (Some alice) (Transact False, NewDatabase)
     = Inr (None, (staged_tx ''test'' ''1'' (Some alice), NewDatabase))"
  by (simp add: run_simps alice_def)

lemma Commit_alice_fresh:
  "Commit SaveOk (staged_tx ''test'' ''1'' (Some alice), NewDatabase)
     = Inr (None, ((staged_tx ''test'' ''1'' (Some alice))\<lparr>committed := True\<rparr>, db_alice))"
  by (simp add: run_simps db_alice_def)

section \<open>The index loop of Commit\<close>

lemma update_indexes_fields:
  "update_indexes ent i ixs = Inr ixs' \<Longrightarrow> map fst ixs' = map fst ixs"
  by (induction ixs arbitrary: ixs') (auto split: sum.splits)

lemma update_indexes_panic:
  "update_indexes ent i ixs = Inl p \<Longrightarrow> p = ElemOnZeroValue \<and> ent = None"
  by (induction ixs) (auto split: sum.splits elim: field_String.elims)

lemma update_indexes_tombstone:
  "ixs \<noteq> [] \<Longrightarrow> update_indexes None i ixs = Inl ElemOnZeroValue"
  by (cases ixs) auto

lemma apply_change_indexed:
  assumes "apply_change ty' c db = Inr db'" and "indexed db ty"
  shows "indexed db' ty"
proof -
  let ?db1 = "(case snd c of
                 None \<Rightarrow>
                   db\<lparr>data := AList.update ty'
                                 (AList.delete (fst c) (at_key (data db) ty')) (data db),
                      cache := (cache db)(getCacheKey ty' (fst c) := None)\<rparr>
               | Some e \<Rightarrow>
                   db\<lparr>data := AList.update ty'
                                 (AList.update (fst c) e (at_key (data db) ty')) (data db),
                      cache := (cache db)(getCacheKey ty' (fst c) \<mapsto> e)\<rparr>)"
  have ix: "indexes ?db1 = indexes db" by (simp split: option.splits)
  show ?thesis
  proof (cases "map_of (indexes db) ty'")
    case None
    with assms ix show ?thesis
      by (auto simp: apply_change_def Let_def indexed_def split: option.splits)
  next
    case (Some ixs)
    with assms ix obtain ixs' where u: "update_indexes (snd c) (fst c) ixs = Inr ixs'"
      and d: "db' = ?db1\<lparr>indexes := AList.update ty' ixs' (indexes db)\<rparr>"
      by (auto simp: apply_change_def Let_def split: sum.splits)
    from u have f: "map fst ixs' = map fst ixs" by (rule update_indexes_fields)
    show ?thesis
    proof (cases "ty = ty'")
      case True
      with assms(2) Some have "ixs \<noteq> []" by (simp add: indexed_def at_key_def)
      with f have "ixs' \<noteq> []" by auto
      with d True show ?thesis by (simp add: indexed_def at_key_def update_conv')
    next
      case False
      with d assms(2) show ?thesis by (simp add: indexed_def at_key_def update_conv')
    qed
  qed
qed

lemma apply_change_panic:
  "apply_change ty c db = Inl p \<Longrightarrow> p = ElemOnZeroValue"
  by (auto simp: apply_change_def Let_def split: option.splits sum.splits dest: update_indexes_panic)

lemma apply_change_tombstone:
  "indexed db ty \<Longrightarrow> apply_change ty (i, None) db = Inl ElemOnZeroValue"
  by (auto simp: apply_change_def Let_def indexed_def at_key_def update_indexes_tombstone
      split: option.splits)

lemma apply_entities_panic:
  "apply_entities ty cs db = Inl p \<Longrightarrow> p = ElemOnZeroValue"
  by (induction cs arbitrary: db) (auto split: sum.splits dest: apply_change_panic)

lemma apply_entities_indexed:
  "apply_entities ty' cs db = Inr db' \<Longrightarrow> indexed db ty \<Longrightarrow> indexed db' ty"
  by (induction cs arbitrary: db) (auto split: sum.splits dest: apply_change_indexed)

lemma apply_entities_tombstone:
  "(i, None) \<in> set cs \<Longrightarrow> indexed db ty \<Longrightarrow> apply_entities ty cs db = Inl ElemOnZeroValue"
proof (induction cs arbitrary: db)
  case Nil
  then show ?case by simp
next
  case (Cons c cs)
  show ?case
  proof (cases "apply_change ty c db")
    case (Inl p)
    then show ?thesis by (simp add: apply_change_panic)
  next
    case (Inr db')
    with Cons.prems have "c \<noteq> (i, None)" by (auto simp: apply_change_tombstone)
    with Cons.prems have "(i, None) \<in> set cs" by auto
    moreover from Inr Cons.prems have "indexed db' ty" by (auto dest: apply_change_indexed)
    ultimately show ?thesis using Inr Cons.IH by simp
  qed
qed

lemma indexed_data_update: "indexed (db\<lparr>data := d\<rparr>) ty = indexed db ty"
  by (simp add: indexed_def)

lemma apply_changes_panic:
  "apply_changes chs db = Inl p \<Longrightarrow> p = ElemOnZeroValue"
  by (induction chs db rule: apply_changes.induct)
     (auto split: sum.splits if_splits dest: apply_entities_panic)

lemma apply_changes_tombstone:
  "(ty, m) \<in> set chs \<Longrightarrow> (i, None) \<in> set m \<Longrightarrow> indexed db ty \<Longrightarrow>
     apply_changes chs db = Inl ElemOnZeroValue"
proof (induction chs db rule: apply_changes.induct)
  case (1 db)
  then show ?case by simp
next
  case (2 ty' es rest db)
  let ?db0 = "if map_of (data db) ty' = None
              then db\<lparr>data := AList.update ty' [] (data db)\<rparr> else db"
  have i0: "indexed ?db0 ty" using "2.prems" by (simp add: indexed_data_update)
  show ?case
  proof (cases "apply_entities ty' es ?db0")
    case (Inl p)
    then show ?thesis by (simp add: apply_entities_panic)
  next
    case (Inr db')
    have "(ty, m) \<noteq> (ty', es)"
    proof
      assume "(ty, m) = (ty', es)"
      with "2.prems" i0 have "apply_entities ty' es ?db0 = Inl ElemOnZeroValue"
        by (auto intro: apply_entities_tombstone)
      with Inr show False by simp
    qed
    with "2.prems" have "(ty, m) \<in> set rest" by auto
    moreover from Inr i0 have "indexed db' ty" by (rule apply_entities_indexed)
    ultimately have "apply_changes rest db' = Inl ElemOnZeroValue"
      using "2.IH" Inr "2.prems"(2) by simp
    with Inr show ?thesis by simp
  qed
qed

section \<open>Commit and the file\<close>

lemma apply_change_disk: "apply_change ty c db = Inr db' \<Longrightarrow> disk db' = disk db"
  by (auto simp: apply_change_def Let_def split: option.splits sum.splits)

lemma apply_entities_disk: "apply_entities ty cs db = Inr db' \<Longrightarrow> disk db' = disk db"
  by (induction cs arbitrary: db) (auto split: sum.splits dest: apply_change_disk)

lemma apply_changes_disk: "apply_changes chs db = Inr db' \<Longrightarrow> disk db' = disk db"
  by (induction chs db rule: apply_changes.induct)
     (auto split: sum.splits if_splits dest: apply_entities_disk)

section \<open>Staging keeps the store\<close>

lemma store_kept_refl: "store_kept db db"
  by (simp add: store_kept_def)

lemma store_kept_trans:
  assumes "store_kept a b" and "store_kept b c"
  shows "store_kept a c"
proof -
  from assms have eq: "data b = data a" "data c = data a" "indexes c = indexes a" "disk c = disk a"
    by (simp_all add: store_kept_def)
  from eq(1) have r: "\<And>ty i. record_at b ty i = record_at a ty i" by (simp add: record_at_def)
  have "cache c k = cache a k \<or>
          (\<exists>ty i. k = getCacheKey ty i \<and> record_at a ty i \<noteq> None \<and> cache c k = record_at a ty i)" for k
  proof -
    from assms(2) have "cache c k = cache b k \<or>
          (\<exists>ty i. k = getCacheKey ty i \<and> record_at b ty i \<noteq> None \<and> cache c k = record_at b ty i)"
      by (simp add: store_kept_def)
    moreover from assms(1) have "cache b k = cache a k \<or>
          (\<exists>ty i. k = getCacheKey ty i \<and> record_at a ty i \<noteq> None \<and> cache b k = record_at a ty i)"
      by (simp add: store_kept_def)
    ultimately show ?thesis using r by metis
  qed
  with eq show ?thesis by (simp add: store_kept_def)
qed

lemma store_kept_fill:
  assumes "record_at db ty i = Some x"
  shows "store_kept db (db\<lparr>cache := (cache db)(getCacheKey ty i \<mapsto> x)\<rparr>)"
proof -
  have "((cache db)(getCacheKey ty i \<mapsto> x)) k = cache db k \<or>
          (\<exists>ty' i'. k = getCacheKey ty' i' \<and> record_at db ty' i' \<noteq> None
              \<and> ((cache db)(getCacheKey ty i \<mapsto> x)) k = record_at db ty' i')" for k
  proof (cases "k = getCacheKey ty i")
    case True
    with assms have "k = getCacheKey ty i \<and> record_at db ty i \<noteq> None
        \<and> ((cache db)(getCacheKey ty i \<mapsto> x)) k = record_at db ty i" by simp
    then show ?thesis by blast
  next
    case False
    then show ?thesis by simp
  qed
  then show ?thesis by (simp add: store_kept_def)
qed

lemma store_Get_kept: "store_Get ty i db = (r, db') \<Longrightarrow> store_kept db db'"
  by (auto simp: store_Get_def store_kept_refl record_at_def at_key_def
      split: option.splits intro!: store_kept_fill)

lemma Get_kept: "Get ty i tx db = (r, db') \<Longrightarrow> store_kept db db'"
  by (auto simp: Get_def store_kept_refl split: option.splits dest: store_Get_kept)

lemma stage_flags [simp]:
  "readOnly (stage ty i ent tx) = readOnly tx" "committed (stage ty i ent tx) = committed tx"
  by (simp_all add: stage_def)

lemma stages_onlyD:
  "stages_only f \<Longrightarrow> f w = Inr (e, w') \<Longrightarrow>
     readOnly (fst w') = readOnly (fst w) \<and> committed (fst w') = committed (fst w)
     \<and> store_kept (snd w) (snd w')"
  unfolding stages_only_def by blast

lemma run_hooks_stages_only:
  "\<forall>h \<in> set hs. stages_only (h ty ent) \<Longrightarrow> stages_only (run_hooks hs ty ent)"
proof (induction hs)
  case Nil
  then show ?case by (simp add: stages_only_def store_kept_refl)
next
  case (Cons h hs)
  then have h: "stages_only (h ty ent)" and r: "stages_only (run_hooks hs ty ent)" by simp_all
  show ?case
    unfolding stages_only_def
  proof (intro allI impI)
    fix w e w'
    assume run: "run_hooks (h # hs) ty ent w = Inr (e, w')"
    then obtain e1 w1 where h1: "h ty ent w = Inr (e1, w1)"
      by (auto split: sum.splits)
    from stages_onlyD [OF h h1]
    have k1: "readOnly (fst w1) = readOnly (fst w)" "committed (fst w1) = committed (fst w)"
      "store_kept (snd w) (snd w1)" by simp_all
    show "readOnly (fst w') = readOnly (fst w) \<and> committed (fst w') = committed (fst w)
            \<and> store_kept (snd w) (snd w')"
    proof (cases e1)
      case None
      with run h1 have "run_hooks hs ty ent w1 = Inr (e, w')" by simp
      from stages_onlyD [OF r this] k1 show ?thesis by (auto intro: store_kept_trans)
    next
      case (Some err)
      with run h1 have "w' = w1" by simp
      with k1 show ?thesis by simp
    qed
  qed
qed

lemma hooks_stage_only_chain:
  "hooks_stage_only hooks \<Longrightarrow> stages_only (run_hooks (hooks operation) ty ent)"
  by (rule run_hooks_stages_only) (simp add: hooks_stage_only_def)

lemma Set_stages_only:
  assumes "hooks_stage_only hooks"
  shows "stages_only (Set hooks ty ent)"
  unfolding stages_only_def
proof (intro allI impI)
  fix w e w'
  assume s: "Set hooks ty ent w = Inr (e, w')"
  show "readOnly (fst w') = readOnly (fst w) \<and> committed (fst w') = committed (fst w)
          \<and> store_kept (snd w) (snd w')"
  proof (cases "readOnly (fst w)")
    case True
    with s show ?thesis by (simp add: Set_def store_kept_refl)
  next
    case False
    with s obtain e1 w1 where p: "run_hooks (hooks ''pre-set'') ty ent w = Inr (e1, w1)"
      by (auto simp: Set_def split: sum.splits)
    note k1 = stages_onlyD [OF hooks_stage_only_chain [OF assms] p]
    show ?thesis
    proof (cases e1)
      case (Some err)
      with s False p have "w' = w1" by (simp add: Set_def)
      with k1 show ?thesis by simp
    next
      case None
      with s False p obtain x where x: "ent = Some x"
        and q: "run_hooks (hooks ''post-set'') ty ent (stage ty (GetID x) ent (fst w1), snd w1) = Inr (e, w')"
        by (auto simp: Set_def split: option.splits)
      from stages_onlyD [OF hooks_stage_only_chain [OF assms] q] k1
      show ?thesis by (auto intro: store_kept_trans)
    qed
  qed
qed

lemma Delete_stages_only:
  assumes "hooks_stage_only hooks"
  shows "stages_only (Delete hooks ty i)"
  unfolding stages_only_def
proof (intro allI impI)
  fix w e w'
  assume s: "Delete hooks ty i w = Inr (e, w')"
  show "readOnly (fst w') = readOnly (fst w) \<and> committed (fst w') = committed (fst w)
          \<and> store_kept (snd w) (snd w')"
  proof (cases "readOnly (fst w)")
    case True
    with s show ?thesis by (simp add: Delete_def store_kept_refl)
  next
    case False
    obtain ent found db1 where g: "Get ty i (fst w) (snd w) = ((ent, found), db1)"
      by (metis prod.exhaust)
    from g have k0: "store_kept (snd w) db1" by (rule Get_kept)
    show ?thesis
    proof (cases found)
      case True
      with s False g obtain e1 w1 where
        p: "run_hooks (hooks ''pre-delete'') ty ent (fst w, db1) = Inr (e1, w1)"
        by (auto simp: Delete_def split: sum.splits)
      note k1 = stages_onlyD [OF hooks_stage_only_chain [OF assms] p]
      show ?thesis
      proof (cases e1)
        case (Some err)
        with s False g True p have "w' = w1" by (simp add: Delete_def)
        with k0 k1 show ?thesis by (auto intro: store_kept_trans)
      next
        case None
        with s False g True p have
          q: "run_hooks (hooks ''post-delete'') ty ent (stage ty i None (fst w1), snd w1) = Inr (e, w')"
          by (simp add: Delete_def)
        from stages_onlyD [OF hooks_stage_only_chain [OF assms] q] k0 k1
        show ?thesis by (auto intro: store_kept_trans)
      qed
    next
      case nf: False
      with s False g have "w' = (stage ty i None (fst w), db1)" by (auto simp: Delete_def)
      with k0 show ?thesis by simp
    qed
  qed
qed

lemma run_calls_kept:
  assumes "hooks_stage_only hooks"
  shows "run_calls hooks calls w = Inr w' \<Longrightarrow>
           readOnly (fst w') = readOnly (fst w) \<and> committed (fst w') = committed (fst w)
           \<and> store_kept (snd w) (snd w')"
proof (induction calls arbitrary: w)
  case Nil
  then show ?case by (simp add: store_kept_refl)
next
  case (Cons c calls)
  show ?case
  proof (cases c)
    case (CallSet ty ent)
    with Cons.prems obtain e w1 where s: "Set hooks ty ent w = Inr (e, w1)"
      and r: "run_calls hooks calls w1 = Inr w'"
      by (auto split: sum.splits)
    from stages_onlyD [OF Set_stages_only [OF assms] s] Cons.IH [OF r]
    show ?thesis by (auto intro: store_kept_trans)
  next
    case (CallDelete ty i)
    with Cons.prems obtain e w1 where s: "Delete hooks ty i w = Inr (e, w1)"
      and r: "run_calls hooks calls w1 = Inr w'"
      by (auto split: sum.splits)
    from stages_onlyD [OF Delete_stages_only [OF assms] s] Cons.IH [OF r]
    show ?thesis by (auto intro: store_kept_trans)
  qed
qed

lemma no_hooks_stage_only: "hooks_stage_only no_hooks"
  by (simp add: hooks_stage_only_def no_hooks_def)

section \<open>What a commit installs\<close>

lemma Get_staged:
  "Get ty i tx db = (case staged tx ty i of
                       None \<Rightarrow> store_Get ty i db
                     | Some ent \<Rightarrow> ((ent, True), db))"
  by (simp add: Get_def staged_def at_key_def split: option.splits)

lemma store_Get_result:
  "fst (store_Get ty i db) =
     (case cache db (getCacheKey ty i) of
        Some c \<Rightarrow> (Some c, True)
      | None \<Rightarrow> (case record_at db ty i of None \<Rightarrow> (None, False) | Some e \<Rightarrow> (Some e, True)))"
  by (simp add: store_Get_def record_at_def at_key_def split: option.splits)

lemma getCacheKey_same_type [simp]: "getCacheKey ty i = getCacheKey ty j \<longleftrightarrow> i = j"
  by (simp add: getCacheKey_def)

lemma at_key_update: "at_key (AList.update k v al) k' = (if k' = k then v else at_key al k')"
  by (simp add: at_key_def update_conv')

lemma apply_change_data_cache:
  assumes "apply_change ty (j, v) db = Inr db1"
  shows "data db1 = AList.update ty
           (case v of None \<Rightarrow> AList.delete j (at_key (data db) ty)
                    | Some e \<Rightarrow> AList.update j e (at_key (data db) ty)) (data db)"
    and "cache db1 = (cache db)(getCacheKey ty j := v)"
  using assms
  by (auto simp: apply_change_def Let_def split: option.splits sum.splits)

lemma apply_change_effect:
  assumes "apply_change ty (j, v) db = Inr db1"
  shows "record_at db1 ty' i = (if ty' = ty \<and> i = j then v else record_at db ty' i)"
    and "cache db1 k = (if k = getCacheKey ty j then v else cache db k)"
proof -
  show "cache db1 k = (if k = getCacheKey ty j then v else cache db k)"
    by (simp add: apply_change_data_cache(2) [OF assms])
  show "record_at db1 ty' i = (if ty' = ty \<and> i = j then v else record_at db ty' i)"
  proof (cases v)
    case None
    then show ?thesis
      by (simp add: record_at_def apply_change_data_cache(1) [OF assms] at_key_update delete_conv')
  next
    case (Some e)
    then show ?thesis
      by (simp add: record_at_def apply_change_data_cache(1) [OF assms] at_key_update update_conv')
  qed
qed

lemma apply_entities_record:
  "distinct (map fst cs) \<Longrightarrow> apply_entities ty cs db = Inr db' \<Longrightarrow>
     record_at db' ty' i =
       (if ty' = ty then (case map_of cs i of Some v \<Rightarrow> v | None \<Rightarrow> record_at db ty i)
        else record_at db ty' i)"
proof (induction cs arbitrary: db)
  case Nil
  then show ?case by simp
next
  case (Cons c cs)
  obtain j u where c: "c = (j, u)" by (cases c)
  from Cons.prems c obtain db1 where s: "apply_change ty (j, u) db = Inr db1"
    and r: "apply_entities ty cs db1 = Inr db'" by (auto split: sum.splits)
  from Cons.prems c have d: "distinct (map fst cs)" and n: "j \<notin> fst ` set cs" by auto
  from n have m: "map_of cs j = None" by (simp add: map_of_eq_None_iff)
  from Cons.IH [OF d r] apply_change_effect(1) [OF s] m c
  show ?case by (auto split: option.splits)
qed

lemma apply_entities_cache_other:
  "apply_entities ty cs db = Inr db' \<Longrightarrow> \<forall>j \<in> fst ` set cs. k \<noteq> getCacheKey ty j \<Longrightarrow>
     cache db' k = cache db k"
proof (induction cs arbitrary: db)
  case Nil
  then show ?case by simp
next
  case (Cons c cs)
  obtain j u where c: "c = (j, u)" by (cases c)
  from Cons.prems c obtain db1 where s: "apply_change ty (j, u) db = Inr db1"
    and r: "apply_entities ty cs db1 = Inr db'" by (auto split: sum.splits)
  from Cons.prems c have a: "\<forall>j' \<in> fst ` set cs. k \<noteq> getCacheKey ty j'"
    and b: "k \<noteq> getCacheKey ty j" by auto
  from Cons.IH [OF r a] apply_change_effect(2) [OF s] b show ?case by simp
qed

lemma apply_entities_cache_staged:
  "distinct (map fst cs) \<Longrightarrow> apply_entities ty cs db = Inr db' \<Longrightarrow> map_of cs i = Some v \<Longrightarrow>
     cache db' (getCacheKey ty i) = v"
proof (induction cs arbitrary: db)
  case Nil
  then show ?case by simp
next
  case (Cons c cs)
  obtain j u where c: "c = (j, u)" by (cases c)
  from Cons.prems c obtain db1 where s: "apply_change ty (j, u) db = Inr db1"
    and r: "apply_entities ty cs db1 = Inr db'" by (auto split: sum.splits)
  from Cons.prems c have d: "distinct (map fst cs)" and n: "j \<notin> fst ` set cs" by auto
  show ?case
  proof (cases "i = j")
    case True
    with Cons.prems c have "u = v" by simp
    moreover from n have "\<forall>j' \<in> fst ` set cs. getCacheKey ty j \<noteq> getCacheKey ty j'" by auto
    with r have "cache db' (getCacheKey ty j) = cache db1 (getCacheKey ty j)"
      by (rule apply_entities_cache_other)
    ultimately show ?thesis using apply_change_effect(2) [OF s] True by simp
  next
    case False
    with Cons.prems c have "map_of cs i = Some v" by simp
    with d r show ?thesis by (rule Cons.IH)
  qed
qed

lemma at_key_Cons: "at_key ((k, v) # al) k' = (if k' = k then v else at_key al k')"
  by (simp add: at_key_def)

lemma at_key_absent: "k \<notin> fst ` set al \<Longrightarrow> at_key al k = []"
proof -
  assume "k \<notin> fst ` set al"
  then have "map_of al k = None" by (simp add: map_of_eq_None_iff)
  then show ?thesis by (simp add: at_key_def)
qed

lemma record_at_make:
  "map_of (data db) ty0 = None \<Longrightarrow>
     record_at (db\<lparr>data := AList.update ty0 [] (data db)\<rparr>) ty i = record_at db ty i"
  by (simp add: record_at_def at_key_update) (simp add: at_key_def)

lemma apply_changes_step:
  assumes "apply_changes ((ty0, es) # rest) db = Inr db'"
  shows "\<exists>db0 db1. cache db0 = cache db \<and> (\<forall>ty i. record_at db0 ty i = record_at db ty i)
           \<and> apply_entities ty0 es db0 = Inr db1 \<and> apply_changes rest db1 = Inr db'"
proof -
  let ?db0 = "if map_of (data db) ty0 = None
              then db\<lparr>data := AList.update ty0 [] (data db)\<rparr> else db"
  from assms obtain db1 where a: "apply_entities ty0 es ?db0 = Inr db1"
    and b: "apply_changes rest db1 = Inr db'" by (auto split: sum.splits)
  have "cache ?db0 = cache db" by simp
  moreover have "\<forall>ty i. record_at ?db0 ty i = record_at db ty i"
    by (simp add: record_at_make)
  ultimately show ?thesis using a b by blast
qed

lemma apply_changes_record:
  "wf_changes chs \<Longrightarrow> apply_changes chs db = Inr db' \<Longrightarrow>
     record_at db' ty i =
       (case map_of (at_key chs ty) i of Some v \<Rightarrow> v | None \<Rightarrow> record_at db ty i)"
proof (induction chs arbitrary: db)
  case Nil
  then show ?case by (simp add: at_key_def)
next
  case (Cons c chs)
  obtain ty0 es where c: "c = (ty0, es)" by (cases c)
  from Cons.prems c have w: "wf_changes chs" and n: "ty0 \<notin> fst ` set chs"
    and d: "distinct (map fst es)" by (auto simp: wf_changes_def)
  from Cons.prems(2) c have "apply_changes ((ty0, es) # chs) db = Inr db'" by simp
  from apply_changes_step [OF this] obtain db0 db1 where
    r0: "\<And>ty i. record_at db0 ty i = record_at db ty i"
    and a: "apply_entities ty0 es db0 = Inr db1" and b: "apply_changes chs db1 = Inr db'"
    by blast
  note ih = Cons.IH [OF w b]
  note e1 = apply_entities_record [OF d a, of ty i]
  show ?case
  proof (cases "ty = ty0")
    case True
    with ih e1 r0 n c show ?thesis
      by (simp add: at_key_Cons at_key_absent split: option.splits)
  next
    case False
    with ih e1 r0 c show ?thesis by (simp add: at_key_Cons split: option.splits)
  qed
qed

lemma apply_changes_cache_other:
  "apply_changes chs db = Inr db' \<Longrightarrow>
     \<forall>entry \<in> set chs. \<forall>j \<in> fst ` set (snd entry). k \<noteq> getCacheKey (fst entry) j \<Longrightarrow>
     cache db' k = cache db k"
proof (induction chs arbitrary: db)
  case Nil
  then show ?case by simp
next
  case (Cons c chs)
  obtain ty0 es where c: "c = (ty0, es)" by (cases c)
  from Cons.prems(1) c have "apply_changes ((ty0, es) # chs) db = Inr db'" by simp
  from apply_changes_step [OF this] obtain db0 db1 where c0: "cache db0 = cache db"
    and a: "apply_entities ty0 es db0 = Inr db1" and b: "apply_changes chs db1 = Inr db'"
    by blast
  from Cons.prems(2) c have h: "\<forall>j \<in> fst ` set es. k \<noteq> getCacheKey ty0 j"
    and t: "\<forall>entry \<in> set chs. \<forall>j \<in> fst ` set (snd entry). k \<noteq> getCacheKey (fst entry) j"
    by auto
  from Cons.IH [OF b t] apply_entities_cache_other [OF a h] c0 show ?case by simp
qed

lemma apply_changes_cache_staged:
  "wf_changes chs \<Longrightarrow> apply_changes chs db = Inr db' \<Longrightarrow>
     map_of (at_key chs ty) i = Some v \<Longrightarrow> unshared_key chs ty i \<Longrightarrow>
     cache db' (getCacheKey ty i) = v"
proof (induction chs arbitrary: db)
  case Nil
  then show ?case by (simp add: at_key_def)
next
  case (Cons c chs)
  obtain ty0 es where c: "c = (ty0, es)" by (cases c)
  from Cons.prems(1) c have w: "wf_changes chs" and n: "ty0 \<notin> fst ` set chs"
    and d: "distinct (map fst es)" by (auto simp: wf_changes_def)
  from Cons.prems(2) c have "apply_changes ((ty0, es) # chs) db = Inr db'" by simp
  from apply_changes_step [OF this] obtain db0 db1 where c0: "cache db0 = cache db"
    and a: "apply_entities ty0 es db0 = Inr db1" and b: "apply_changes chs db1 = Inr db'"
    by blast
  from Cons.prems(4) have u: "unshared_key chs ty i" by (simp add: unshared_key_def)
  show ?case
  proof (cases "ty = ty0")
    case True
    with Cons.prems(3) c have m: "map_of es i = Some v" by (simp add: at_key_Cons)
    have "\<forall>entry \<in> set chs. \<forall>j \<in> fst ` set (snd entry).
            getCacheKey ty0 i \<noteq> getCacheKey (fst entry) j"
    proof (intro ballI notI)
      fix entry j
      assume e: "entry \<in> set chs" and j: "j \<in> fst ` set (snd entry)"
        and k: "getCacheKey ty0 i = getCacheKey (fst entry) j"
      with u True have "fst entry = ty0" by (auto simp: unshared_key_def)
      with e n show False by auto
    qed
    with b have "cache db' (getCacheKey ty0 i) = cache db1 (getCacheKey ty0 i)"
      by (rule apply_changes_cache_other)
    with apply_entities_cache_staged [OF d a m] True show ?thesis by simp
  next
    case False
    with Cons.prems(3) c have "map_of (at_key chs ty) i = Some v" by (simp add: at_key_Cons)
    from Cons.IH [OF w b this u] show ?thesis .
  qed
qed

lemma save_keeps:
  "save io db = (e, db') \<Longrightarrow> data db' = data db \<and> indexes db' = indexes db \<and> cache db' = cache db"
  by (auto simp: save_def split: save_io.splits)

lemma Commit_installs:
  assumes "\<not> readOnly tx" and "wf_changes (changes tx)"
    and "Commit io (tx, db) = Inr (err, (tx', db'))"
  shows "tx' = tx\<lparr>committed := True\<rparr>"
    and "record_at db' ty i = (case staged tx ty i of Some v \<Rightarrow> v | None \<Rightarrow> record_at db ty i)"
    and "staged tx ty i = Some v \<Longrightarrow> unshared_key (changes tx) ty i \<Longrightarrow>
           cache db' (getCacheKey ty i) = v"
proof -
  from assms(1,3) obtain db1 where a: "apply_changes (changes tx) db = Inr db1"
    and s: "save io db1 = (err, db')" and t: "tx' = tx\<lparr>committed := True\<rparr>"
    by (auto simp: Commit_def split: sum.splits prod.splits)
  from save_keeps [OF s] have k: "data db' = data db1" "cache db' = cache db1" by simp_all
  show "tx' = tx\<lparr>committed := True\<rparr>" by (rule t)
  from apply_changes_record [OF assms(2) a, of ty i] k(1)
  show "record_at db' ty i = (case staged tx ty i of Some v \<Rightarrow> v | None \<Rightarrow> record_at db ty i)"
    by (simp add: record_at_def staged_def)
  assume "staged tx ty i = Some v" and "unshared_key (changes tx) ty i"
  with apply_changes_cache_staged [OF assms(2) a, of ty i v] k(2)
  show "cache db' (getCacheKey ty i) = v" by (simp add: staged_def)
qed

text \<open>Read your committed writes, where the cache key is not shared: a record staged by
  a write transaction whose \<open>Commit\<close> returns is what \<open>Get\<close> returns afterwards, in the same
  transaction and in a new one, whatever has expired from the cache in between.\<close>

lemma Get_after_Commit:
  assumes "\<not> readOnly tx" and "wf_changes (changes tx)"
    and "staged tx ty i = Some (Some e)" and "unshared_key (changes tx) ty i"
    and "Commit io (tx, db) = Inr (err, (tx', db'))"
  shows "fst (Get ty i tx' (expire K db')) = (Some e, True)"
    and "fst (Get ty i (Transact ro) (expire K db')) = (Some e, True)"
proof -
  note c = Commit_installs [OF assms(1,2,5)]
  from c(1) assms(3) have "staged tx' ty i = Some (Some e)" by (simp add: staged_def)
  then show "fst (Get ty i tx' (expire K db')) = (Some e, True)" by (simp add: Get_staged)
  from c(2) [of ty i] assms(3) have r: "record_at (expire K db') ty i = Some e"
    by (simp add: record_at_def expire_def)
  from c(3) [OF assms(3,4)] have "cache (expire K db') (getCacheKey ty i) = Some e
      \<or> cache (expire K db') (getCacheKey ty i) = None" by (simp add: expire_def)
  with r show "fst (Get ty i (Transact ro) (expire K db')) = (Some e, True)"
    by (auto simp: Get_staged staged_def Transact_def at_key_def store_Get_result)
qed

section \<open>The loop of Migrate\<close>

lemma run_migrations_called:
  "run_migrations hooks cv t ms w = Inr (e, w', called) \<Longrightarrow>
     (\<exists>rest. pending cv t ms = called @ rest) \<and> (e = None \<longrightarrow> called = pending cv t ms)"
proof (induction ms arbitrary: w e w' called)
  case Nil
  then show ?case by (simp add: pending_def)
next
  case (Cons m ms)
  show ?case
  proof (cases "Version m > cv \<and> Version m \<le> t")
    case False
    with Cons.prems have "run_migrations hooks cv t ms w = Inr (e, w', called)" by simp
    moreover from False have "pending cv t (m # ms) = pending cv t ms"
      by (auto simp: pending_def)
    ultimately show ?thesis using Cons.IH by simp
  next
    case True
    then have p: "pending cv t (m # ms) = Version m # pending cv t ms" by (auto simp: pending_def)
    from Cons.prems True obtain e1 w1 where u: "Up m w = Inr (e1, w1)"
      by (auto split: sum.splits)
    show ?thesis
    proof (cases e1)
      case (Some err)
      with Cons.prems True u have "e = Some err" "called = [Version m]" by simp_all
      with p show ?thesis by simp
    next
      case None
      with Cons.prems True u obtain e2 w2 where
        s: "setCurrentVersion hooks (Version m) w1 = Inr (e2, w2)"
        by (auto split: sum.splits)
      show ?thesis
      proof (cases e2)
        case (Some err)
        with Cons.prems True u None s have "e = Some err" "called = [Version m]" by simp_all
        with p show ?thesis by simp
      next
        case n2: None
        with Cons.prems True u None s obtain c' where
          r: "run_migrations hooks cv t ms w2 = Inr (e, w', c')" and c: "called = Version m # c'"
          by (auto split: sum.splits)
        from Cons.IH [OF r] p c show ?thesis by auto
      qed
    qed
  qed
qed

lemma run_migrations_nothing_pending:
  "pending cv t ms = [] \<Longrightarrow> run_migrations hooks cv t ms w = Inr (None, w, [])"
  by (induction ms) (auto simp: pending_def split: if_splits)

lemma setCurrentVersion_stages_only:
  "hooks_stage_only hooks \<Longrightarrow> stages_only (setCurrentVersion hooks v)"
  using Set_stages_only [of hooks "''migration''" "Some (MigrationVersion ''current_version'' v)"]
  by (simp add: stages_only_def setCurrentVersion_def)

lemma run_migrations_kept:
  assumes "\<forall>m \<in> set ms. stages_only (Up m)" and "hooks_stage_only hooks"
  shows "run_migrations hooks cv t ms w = Inr (e, w', called) \<Longrightarrow>
           readOnly (fst w') = readOnly (fst w) \<and> committed (fst w') = committed (fst w)
           \<and> store_kept (snd w) (snd w')"
  using assms(1)
proof (induction ms arbitrary: w e w' called)
  case Nil
  then show ?case by (simp add: store_kept_refl)
next
  case (Cons m ms)
  from Cons.prems(2) have um: "stages_only (Up m)" and rest: "\<forall>m \<in> set ms. stages_only (Up m)"
    by simp_all
  show ?case
  proof (cases "Version m > cv \<and> Version m \<le> t")
    case False
    with Cons.prems(1) have "run_migrations hooks cv t ms w = Inr (e, w', called)" by simp
    from Cons.IH [OF this rest] show ?thesis .
  next
    case True
    from Cons.prems(1) True obtain e1 w1 where u: "Up m w = Inr (e1, w1)"
      by (auto split: sum.splits)
    note k1 = stages_onlyD [OF um u]
    show ?thesis
    proof (cases e1)
      case (Some err)
      with Cons.prems(1) True u have "w' = w1" by simp
      with k1 show ?thesis by simp
    next
      case None
      with Cons.prems(1) True u obtain e2 w2 where
        s: "setCurrentVersion hooks (Version m) w1 = Inr (e2, w2)"
        by (auto split: sum.splits)
      note k2 = stages_onlyD [OF setCurrentVersion_stages_only [OF assms(2)] s]
      show ?thesis
      proof (cases e2)
        case (Some err)
        with Cons.prems(1) True u None s have "w' = w2" by simp
        with k1 k2 show ?thesis by (auto intro: store_kept_trans)
      next
        case n2: None
        with Cons.prems(1) True u None s obtain c' where
          r: "run_migrations hooks cv t ms w2 = Inr (e, w', c')"
          by (auto split: sum.splits)
        from Cons.IH [OF r rest] k1 k2 show ?thesis by (auto intro: store_kept_trans)
      qed
    qed
  qed
qed


lemma sorted_le_last: "sorted xs \<Longrightarrow> x \<in> set xs \<Longrightarrow> x \<le> last (xs :: int list)"
proof -
  assume s: "sorted xs" and x: "x \<in> set xs"
  then have "xs \<noteq> []" by auto
  then have e: "xs = butlast xs @ [last xs]" by simp
  with s have "sorted (butlast xs @ [last xs])" by simp
  then have "\<forall>y \<in> set (butlast xs). y \<le> last xs" by (simp add: sorted_append)
  moreover from x e have "x \<in> set (butlast xs) \<or> x = last xs"
    by (metis Un_iff empty_iff empty_set insert_iff list.simps(15) set_append)
  ultimately show ?thesis by auto
qed

lemma sorted_pending: "sorted (map Version ms) \<Longrightarrow> sorted (pending cv t ms)"
  by (simp add: pending_def sorted_filter)

lemma stages_only_noop_up: "stages_only noop_up"
  by (simp add: stages_only_def noop_up_def store_kept_refl)


lemma stages_only_set_alice_up: "stages_only set_alice_up"
  using Set_stages_only [OF no_hooks_stage_only, of "''test''" "Some alice"]
  by (simp add: stages_only_def set_alice_up_def)

lemmas migrate_simps =
  Migrate_def getCurrentVersion_def setCurrentVersion_def AddMigration_def
  noop_up_def set_alice_up_def failing_up_def marker_def db_marker_def tx_done_def

section \<open>The version marker across two runs of Migrate\<close>

lemma set_update_cases: "x \<in> set (AList.update k v al) \<Longrightarrow> x = (k, v) \<or> x \<in> set al"
  by (induction al) (auto split: if_splits)

lemma at_key_distinct:
  "wf_changes chs \<Longrightarrow> distinct (map fst (at_key chs ty))"
proof (cases "map_of chs ty")
  case None
  then show ?thesis by (simp add: at_key_def)
next
  case (Some m)
  assume w: "wf_changes chs"
  from Some have "(ty, m) \<in> set chs" by (rule map_of_SomeD)
  with w have "distinct (map fst m)" by (auto simp: wf_changes_def)
  with Some show ?thesis by (simp add: at_key_def)
qed

lemma stage_wf:
  assumes "wf_changes (changes tx)"
  shows "wf_changes (changes (stage ty i ent tx))"
proof -
  let ?m = "AList.update i ent (at_key (changes tx) ty)"
  have c: "changes (stage ty i ent tx) = AList.update ty ?m (changes tx)"
    by (simp add: stage_def at_key_def)
  from assms have d: "distinct (map fst (AList.update ty ?m (changes tx)))"
    by (simp add: wf_changes_def distinct_update)
  have m: "distinct (map fst ?m)"
    using at_key_distinct [OF assms, of ty] by (simp add: distinct_update)
  have "distinct (map fst (snd entry))" if "entry \<in> set (AList.update ty ?m (changes tx))" for entry
  proof -
    from that have "entry = (ty, ?m) \<or> entry \<in> set (changes tx)" by (rule set_update_cases)
    with m assms show ?thesis by (auto simp: wf_changes_def)
  qed
  with d c show ?thesis by (simp add: wf_changes_def)
qed

lemma staged_stage:
  "staged (stage ty i ent tx) ty' i' =
     (if ty' = ty \<and> i' = i then Some ent else staged tx ty' i')"
proof -
  have "changes (stage ty i ent tx)
          = AList.update ty (AList.update i ent (at_key (changes tx) ty)) (changes tx)"
    by (simp add: stage_def at_key_def)
  then show ?thesis by (simp add: staged_def at_key_update update_conv')
qed

lemma keeps_wfD:
  "keeps_wf f \<Longrightarrow> f w = Inr (e, w') \<Longrightarrow> wf_changes (changes (fst w)) \<Longrightarrow>
     wf_changes (changes (fst w'))"
  unfolding keeps_wf_def by blast

lemma keeps_markerD:
  "keeps_marker f \<Longrightarrow> f w = Inr (e, w') \<Longrightarrow>
     staged (fst w') ''migration'' ''current_version''
       = staged (fst w) ''migration'' ''current_version''"
  unfolding keeps_marker_def by blast

lemma run_hooks_wf:
  "\<forall>h \<in> set hs. keeps_wf (h ty ent) \<Longrightarrow> run_hooks hs ty ent w = Inr (e, w') \<Longrightarrow>
     wf_changes (changes (fst w)) \<Longrightarrow> wf_changes (changes (fst w'))"
proof (induction hs arbitrary: w)
  case Nil
  then show ?case by simp
next
  case (Cons h hs)
  from Cons.prems(2) obtain e1 w1 where h1: "h ty ent w = Inr (e1, w1)"
    by (auto split: sum.splits)
  from Cons.prems(1) have "keeps_wf (h ty ent)" by simp
  from keeps_wfD [OF this h1 Cons.prems(3)] have w1: "wf_changes (changes (fst w1))" .
  show ?case
  proof (cases e1)
    case None
    with Cons.prems(2) h1 have "run_hooks hs ty ent w1 = Inr (e, w')" by simp
    with Cons.IH Cons.prems(1) w1 show ?thesis by simp
  next
    case (Some err)
    with Cons.prems(2) h1 w1 show ?thesis by simp
  qed
qed

lemma run_hooks_marker:
  "\<forall>h \<in> set hs. keeps_marker (h ty ent) \<Longrightarrow> run_hooks hs ty ent w = Inr (e, w') \<Longrightarrow>
     staged (fst w') ''migration'' ''current_version''
       = staged (fst w) ''migration'' ''current_version''"
proof (induction hs arbitrary: w)
  case Nil
  then show ?case by simp
next
  case (Cons h hs)
  from Cons.prems(2) obtain e1 w1 where h1: "h ty ent w = Inr (e1, w1)"
    by (auto split: sum.splits)
  from Cons.prems(1) have "keeps_marker (h ty ent)" by simp
  note m1 = keeps_markerD [OF this h1]
  show ?case
  proof (cases e1)
    case None
    with Cons.prems(2) h1 have "run_hooks hs ty ent w1 = Inr (e, w')" by simp
    with Cons.IH Cons.prems(1) m1 show ?thesis by simp
  next
    case (Some err)
    with Cons.prems(2) h1 m1 show ?thesis by simp
  qed
qed

lemma Set_wf:
  assumes "hooks_keep_wf hooks" and "Set hooks ty ent w = Inr (e, w')"
    and "wf_changes (changes (fst w))"
  shows "wf_changes (changes (fst w'))"
proof (cases "readOnly (fst w)")
  case True
  with assms(2,3) show ?thesis by (simp add: Set_def)
next
  case False
  from assms(1) have hk: "\<And>operation. \<forall>h \<in> set (hooks operation). keeps_wf (h ty ent)"
    by (simp add: hooks_keep_wf_def)
  from assms(2) False obtain e1 w1 where p: "run_hooks (hooks ''pre-set'') ty ent w = Inr (e1, w1)"
    by (auto simp: Set_def split: sum.splits)
  from run_hooks_wf [OF hk p assms(3)] have w1: "wf_changes (changes (fst w1))" .
  show ?thesis
  proof (cases e1)
    case (Some err)
    with assms(2) False p w1 show ?thesis by (simp add: Set_def)
  next
    case None
    with assms(2) False p obtain x where x: "ent = Some x"
      and q: "run_hooks (hooks ''post-set'') ty ent (stage ty (GetID x) ent (fst w1), snd w1) = Inr (e, w')"
      by (auto simp: Set_def split: option.splits)
    from stage_wf [OF w1] have "wf_changes (changes (fst (stage ty (GetID x) ent (fst w1), snd w1)))"
      by simp
    from run_hooks_wf [OF hk q this] show ?thesis .
  qed
qed

lemma setCurrentVersion_marker:
  assumes "\<forall>h \<in> set (hooks ''post-set''). \<forall>ty ent. keeps_marker (h ty ent)"
    and "setCurrentVersion hooks v w = Inr (None, w')"
  shows "staged (fst w') ''migration'' ''current_version'' = Some (Some (marker v))"
proof -
  let ?ent = "Some (MigrationVersion ''current_version'' v)"
  from assms(2) have ro: "\<not> readOnly (fst w)"
    by (auto simp: setCurrentVersion_def Set_def split: if_splits)
  with assms(2) obtain e1 w1 where
    p: "run_hooks (hooks ''pre-set'') ''migration'' ?ent w = Inr (e1, w1)"
    by (auto simp: setCurrentVersion_def Set_def split: sum.splits)
  with assms(2) ro have e1: "e1 = None"
    by (cases e1) (auto simp: setCurrentVersion_def Set_def)
  with assms(2) ro p have
    q: "run_hooks (hooks ''post-set'') ''migration'' ?ent
          (stage ''migration'' ''current_version'' ?ent (fst w1), snd w1) = Inr (None, w')"
    by (simp add: setCurrentVersion_def Set_def)
  from assms(1) have "\<forall>h \<in> set (hooks ''post-set''). keeps_marker (h ''migration'' ?ent)" by simp
  from run_hooks_marker [OF this q] show ?thesis by (simp add: staged_stage marker_def)
qed

lemma run_migrations_wf:
  assumes "\<forall>m \<in> set ms. keeps_wf (Up m)" and "hooks_keep_wf hooks"
  shows "run_migrations hooks cv t ms w = Inr (e, w', called) \<Longrightarrow>
           wf_changes (changes (fst w)) \<Longrightarrow> wf_changes (changes (fst w'))"
  using assms(1)
proof (induction ms arbitrary: w e w' called)
  case Nil
  then show ?case by simp
next
  case (Cons m ms)
  from Cons.prems(3) have um: "keeps_wf (Up m)" and rest: "\<forall>m \<in> set ms. keeps_wf (Up m)"
    by simp_all
  show ?case
  proof (cases "Version m > cv \<and> Version m \<le> t")
    case False
    with Cons.prems(1) have "run_migrations hooks cv t ms w = Inr (e, w', called)" by simp
    from Cons.IH [OF this Cons.prems(2) rest] show ?thesis .
  next
    case True
    from Cons.prems(1) True obtain e1 w1 where u: "Up m w = Inr (e1, w1)"
      by (auto split: sum.splits)
    from keeps_wfD [OF um u Cons.prems(2)] have w1: "wf_changes (changes (fst w1))" .
    show ?thesis
    proof (cases e1)
      case (Some err)
      with Cons.prems(1) True u w1 show ?thesis by simp
    next
      case None
      with Cons.prems(1) True u obtain e2 w2 where
        s: "setCurrentVersion hooks (Version m) w1 = Inr (e2, w2)"
        by (auto split: sum.splits)
      from s have "Set hooks ''migration'' (Some (MigrationVersion ''current_version'' (Version m))) w1
          = Inr (e2, w2)" by (simp add: setCurrentVersion_def)
      from Set_wf [OF assms(2) this w1] have w2: "wf_changes (changes (fst w2))" .
      show ?thesis
      proof (cases e2)
        case (Some err)
        with Cons.prems(1) True u None s w2 show ?thesis by simp
      next
        case n2: None
        with Cons.prems(1) True u None s obtain c' where
          r: "run_migrations hooks cv t ms w2 = Inr (e, w', c')"
          by (auto split: sum.splits)
        from Cons.IH [OF r w2 rest] show ?thesis .
      qed
    qed
  qed
qed

lemma run_migrations_marker:
  assumes "\<forall>h \<in> set (hooks ''post-set''). \<forall>ty ent. keeps_marker (h ty ent)"
  shows "run_migrations hooks cv t ms w = Inr (None, w', called) \<Longrightarrow>
           (called = [] \<longrightarrow> w' = w)
           \<and> (called \<noteq> [] \<longrightarrow>
                staged (fst w') ''migration'' ''current_version'' = Some (Some (marker (last called))))"
proof (induction ms arbitrary: w called)
  case Nil
  then show ?case by simp
next
  case (Cons m ms)
  show ?case
  proof (cases "Version m > cv \<and> Version m \<le> t")
    case False
    with Cons.prems have "run_migrations hooks cv t ms w = Inr (None, w', called)" by simp
    from Cons.IH [OF this] show ?thesis .
  next
    case True
    from Cons.prems True obtain e1 w1 where u: "Up m w = Inr (e1, w1)"
      by (auto split: sum.splits)
    with Cons.prems True have e1: "e1 = None" by (cases e1) auto
    with Cons.prems True u obtain e2 w2 where
      s: "setCurrentVersion hooks (Version m) w1 = Inr (e2, w2)"
      by (auto split: sum.splits)
    with Cons.prems True u e1 have e2: "e2 = None" by (cases e2) auto
    with Cons.prems True u e1 s obtain c' where
      r: "run_migrations hooks cv t ms w2 = Inr (None, w', c')" and c: "called = Version m # c'"
      by (auto split: sum.splits)
    from s e2 have "setCurrentVersion hooks (Version m) w1 = Inr (None, w2)" by simp
    from setCurrentVersion_marker [of hooks "Version m" w1 w2, OF assms this]
    have mk: "staged (fst w2) ''migration'' ''current_version'' = Some (Some (marker (Version m)))" .
    from Cons.IH [OF r] mk c show ?thesis by auto
  qed
qed

lemma marker_key_unique:
  assumes "getCacheKey ty i = getCacheKey ''migration'' ''current_version''"
  shows "ty = ''migration''"
proof -
  from assms have h: "ty @ '':'' @ i = ''migration:current_version''"
    by (simp add: getCacheKey_def)
  then have "count_list (ty @ '':'' @ i) CHR '':'' = count_list ''migration:current_version'' CHR '':''"
    by simp
  then have "count_list ty CHR '':'' = 0" by simp
  then have n: "CHR '':'' \<notin> set ty" by (simp add: count_list_0_iff)
  then have "takeWhile (\<lambda>x. x \<noteq> CHR '':'') (ty @ '':'' @ i) = ty"
    by (auto simp: takeWhile_tail takeWhile_eq_all_conv)
  with h show ?thesis by simp
qed

lemma marker_key_unshared: "unshared_key chs ''migration'' ''current_version''"
  by (auto simp: unshared_key_def dest: marker_key_unique)

lemma store_Get_again:
  "store_Get ty i db = (r, db0) \<Longrightarrow> store_Get ty i (db0\<lparr>disk := d\<rparr>) = (r, db0\<lparr>disk := d\<rparr>)"
  by (auto simp: store_Get_def split: option.splits)

lemma Get_fresh: "Get ty i (Transact ro) db = store_Get ty i db"
  by (simp add: Get_def Transact_def)

lemma getCurrentVersion_again:
  assumes "getCurrentVersion (Transact False) db = (r, db0)"
  shows "getCurrentVersion (Transact False) (db0\<lparr>disk := d\<rparr>) = (r, db0\<lparr>disk := d\<rparr>)"
proof -
  obtain ent found db' where g: "store_Get ''migration'' ''current_version'' db = ((ent, found), db')"
    by (metis prod.exhaust)
  with assms have "db' = db0"
    by (auto simp: getCurrentVersion_def Get_fresh split: if_splits option.splits entity.splits)
  with g have "store_Get ''migration'' ''current_version'' (db0\<lparr>disk := d\<rparr>)
      = ((ent, found), db0\<lparr>disk := d\<rparr>)" by (simp add: store_Get_again)
  with assms g show ?thesis
    by (auto simp: getCurrentVersion_def Get_fresh split: if_splits option.splits entity.splits)
qed

lemma getCurrentVersion_cached:
  assumes "cache db (getCacheKey ''migration'' ''current_version'') = Some (marker v)"
  shows "getCurrentVersion (Transact False) db = ((v, None), db)"
  using assms by (simp add: getCurrentVersion_def Get_fresh store_Get_def marker_def)

lemma Migrate_nothing_pending:
  assumes "getCurrentVersion (Transact False) db = ((cv, None), db0)"
    and "pending cv t ms = []"
  shows "Migrate SaveOk hooks ms t db
           = Inr (None, (tx_done True, db0\<lparr>disk := Written (data db0)\<rparr>), [])"
  using assms
  by (simp add: Migrate_def run_migrations_nothing_pending Commit_def Transact_def save_def
      Rollback_def tx_done_def)

lemma pending_mem:
  "v \<in> set (pending cv t ms) \<longleftrightarrow> (\<exists>m \<in> set ms. Version m = v \<and> cv < v \<and> v \<le> t)"
  by (auto simp: pending_def)

lemma pending_empty:
  "pending cv t ms = [] \<longleftrightarrow> (\<forall>m \<in> set ms. \<not> (cv < Version m \<and> Version m \<le> t))"
  by (simp add: pending_def filter_empty_conv)

lemma pending_after_last:
  assumes "sorted (map Version ms)" and "pending cv t ms \<noteq> []"
  shows "pending (last (pending cv t ms)) t ms = []"
proof -
  define L where "L = last (pending cv t ms)"
  from assms(2) have "L \<in> set (pending cv t ms)" unfolding L_def by (rule last_in_set)
  then have cvL: "cv < L" by (simp add: pending_mem)
  have "\<not> (L < Version m \<and> Version m \<le> t)" if m: "m \<in> set ms" for m
  proof
    assume a: "L < Version m \<and> Version m \<le> t"
    with cvL have "cv < Version m \<and> Version m \<le> t" by simp
    with m have "Version m \<in> set (pending cv t ms)" unfolding pending_mem by blast
    with sorted_pending [OF assms(1)] have "Version m \<le> L"
      unfolding L_def by (rule sorted_le_last)
    with a show False by simp
  qed
  then have "pending L t ms = []" unfolding pending_empty by blast
  then show ?thesis by (simp add: L_def)
qed

lemma wf_changes_empty: "wf_changes []"
  by (simp add: wf_changes_def)

lemma keeps_wf_noop_up: "keeps_wf noop_up"
  by (simp add: keeps_wf_def noop_up_def)

lemma no_hooks_keep_wf: "hooks_keep_wf no_hooks"
  by (simp add: hooks_keep_wf_def no_hooks_def)

lemma keeps_wf_set_alice_up: "keeps_wf set_alice_up"
  unfolding keeps_wf_def set_alice_up_def
  using Set_wf [OF no_hooks_keep_wf] by blast

section \<open>When Commit returns, and a second Commit\<close>


















section \<open>The index that AddIndex builds\<close>

lemma at_key_bucket_append:
  "at_key (bucket_append v' j index) v = (if v = v' then at_key index v @ [j] else at_key index v)"
  by (simp add: bucket_append_def at_key_update)

lemma index_all_count:
  "distinct (map fst recs) \<Longrightarrow>
     count_list (at_key (index_all field recs index) v) i =
       count_list (at_key index v) i +
       (case map_of recs i of
          None \<Rightarrow> 0
        | Some e \<Rightarrow> if Value_String (FieldByName e field) = v then 1 else 0)"
proof (induction recs arbitrary: index)
  case Nil
  then show ?case by simp
next
  case (Cons r recs)
  obtain j e where r: "r = (j, e)" by (cases r)
  from Cons.prems r have d: "distinct (map fst recs)" and n: "j \<notin> fst ` set recs" by auto
  from n have m: "map_of recs j = None" by (simp add: map_of_eq_None_iff)
  from Cons.IH [OF d, of "bucket_append (Value_String (FieldByName e field)) j index"] r m
  show ?case by (auto simp: at_key_bucket_append split: option.splits)
qed

text \<open>\<open>AddIndex\<close> establishes the index invariant for its field: where the ids of the type
  are distinct keys of the canonical map, every id of a record stands exactly once in the
  bucket of the record's value and in no other bucket, and no other id stands in any.\<close>

lemma AddIndex_consistent:
  assumes "distinct (map fst (at_key (data db) entityType))"
  shows "count_list (at_key (at_key (at_key (indexes (AddIndex entityType field db)) entityType) field) v) i
           = (case record_at db entityType i of
                None \<Rightarrow> 0
              | Some e \<Rightarrow> if Value_String (FieldByName e field) = v then 1 else 0)"
proof -
  have "at_key (at_key (indexes (AddIndex entityType field db)) entityType) field
          = index_all field (at_key (data db) entityType) []"
    by (simp add: AddIndex_def at_key_update)
  with index_all_count [OF assms, of field "[]" v i] show ?thesis
    by (simp add: record_at_def at_key_def)
qed

section \<open>The claims\<close>

text \<open>
  C1 (index consistency after a commit), at a failing input. With an index on \<open>Name\<close>,
  \<open>alice\<close> (id 1) is committed and then \<open>bob\<close>, the same record with another name. The
  canonical map then holds only \<open>bob\<close>, but \<open>Commit\<close> has appended the id to the bucket of
  the new value and left it in the bucket of the old one: id 1 stands in the bucket
  \<open>Alice\<close>, which is not the value of its \<open>Name\<close>.
\<close>

theorem Commit_leaves_stale_index_entry:
  "Set no_hooks ''test'' (Some alice) (Transact False, AddIndex ''test'' ''Name'' NewDatabase)
     = Inr (None, (staged_tx ''test'' ''1'' (Some alice), db_index))
   \<and> Commit SaveOk (staged_tx ''test'' ''1'' (Some alice), db_index)
     = Inr (None, ((staged_tx ''test'' ''1'' (Some alice))\<lparr>committed := True\<rparr>, db_alice_indexed))
   \<and> Set no_hooks ''test'' (Some bob) (Transact False, db_alice_indexed)
     = Inr (None, (staged_tx ''test'' ''1'' (Some bob), db_alice_indexed))
   \<and> Commit SaveOk (staged_tx ''test'' ''1'' (Some bob), db_alice_indexed)
     = Inr (None, ((staged_tx ''test'' ''1'' (Some bob))\<lparr>committed := True\<rparr>, db_bob_indexed))
   \<and> data db_bob_indexed = [(''test'', [(''1'', bob)])]
   \<and> Value_String (FieldByName bob ''Name'') = ''Bob''
   \<and> map_of (at_key (at_key (indexes db_bob_indexed) ''test'') ''Name'') ''Alice'' = Some [''1'']"
  by (simp add: run_simps db_index_def db_alice_indexed_def db_bob_indexed_def alice_def bob_def)

text \<open>
  C2 (a staged tombstone reads as not found), at a failing input. In a store that holds
  record 1 a write transaction stages \<open>Delete("test", "1")\<close>; \<open>Get\<close> of the same id in that
  transaction then returns the overlay entry as it is: the nil entity with found = true.
\<close>

theorem Get_reports_staged_tombstone_found:
  "Delete no_hooks ''test'' ''1'' (Transact False, db_alice)
     = Inr (None, (staged_tx ''test'' ''1'' None, db_alice))
   \<and> Get ''test'' ''1'' (staged_tx ''test'' ''1'' None) db_alice = ((None, True), db_alice)"
  by (simp add: run_simps db_alice_def)

text \<open>
  C3 (a commit whose persistence fails leaves no trace), as stated, fails: the write of
  the file fails, \<open>Commit\<close> returns the error, and the transaction is marked committed,
  the canonical map and the cache hold the record, and a new read-only transaction reads it.
\<close>

theorem Commit_save_failure_counterexample:
  "Commit (WriteFails ''no space left on device'' Damaged)
      (staged_tx ''test'' ''1'' (Some alice), NewDatabase)
     = Inr (Some (IOError ''no space left on device''),
        ((staged_tx ''test'' ''1'' (Some alice))\<lparr>committed := True\<rparr>,
         db_alice\<lparr>disk := Damaged\<rparr>))
   \<and> committed ((staged_tx ''test'' ''1'' (Some alice))\<lparr>committed := True\<rparr>)
   \<and> data (db_alice\<lparr>disk := Damaged\<rparr>) = [(''test'', [(''1'', alice)])]
   \<and> fst (Get ''test'' ''1'' (Transact True) (db_alice\<lparr>disk := Damaged\<rparr>)) = (Some alice, True)"
  by (simp add: run_simps db_alice_def)

text \<open>
  C3 as amended. \<open>Commit\<close> applies the overlay in memory, marks the transaction committed
  and only then saves. When the save fails, \<open>Commit\<close> returns the error of the save; the
  transaction is marked committed and the canonical map, the indexes and the cache are
  exactly those of the commit whose save succeeds. The file is the only difference: it is
  the one from before the commit when serialisation or the creation of the directory failed.
\<close>

theorem Commit_save_failure_keeps_changes:
  assumes "\<not> readOnly tx" and "io \<noteq> SaveOk"
    and "Commit SaveOk (tx, db) = Inr (e, (tx1, db1))"
  shows "\<exists>msg db2. Commit io (tx, db) = Inr (Some (IOError msg), (tx1, db2))
           \<and> committed tx1
           \<and> data db2 = data db1 \<and> indexes db2 = indexes db1 \<and> cache db2 = cache db1
           \<and> (io = MarshalFails msg \<or> io = MkdirFails msg \<or> (\<exists>f. io = WriteFails msg f \<and> disk db2 = f))
           \<and> ((\<exists>f. io = WriteFails msg f) \<or> disk db2 = disk db)"
proof -
  from assms(1,3) obtain db' where a: "apply_changes (changes tx) db = Inr db'"
    and t: "tx1 = tx\<lparr>committed := True\<rparr>" and d: "db1 = db'\<lparr>disk := Written (data db')\<rparr>"
    by (auto simp: Commit_def save_def split: sum.splits)
  from a have k: "disk db' = disk db" by (rule apply_changes_disk)
  show ?thesis
  proof (cases io)
    case SaveOk
    with assms(2) show ?thesis by simp
  next
    case (MarshalFails msg)
    with assms(1) a t d k show ?thesis by (simp add: Commit_def save_def)
  next
    case (MkdirFails msg)
    with assms(1) a t d k show ?thesis by (simp add: Commit_def save_def)
  next
    case (WriteFails msg f)
    with assms(1) a t d k show ?thesis by (simp add: Commit_def save_def)
  qed
qed

theorem Commit_save_failure_keeps_changes_witness:
  "\<not> readOnly (staged_tx ''test'' ''1'' (Some alice))
   \<and> MkdirFails ''permission denied'' \<noteq> SaveOk
   \<and> Commit SaveOk (staged_tx ''test'' ''1'' (Some alice), NewDatabase)
       = Inr (None, ((staged_tx ''test'' ''1'' (Some alice))\<lparr>committed := True\<rparr>, db_alice))
   \<and> (\<exists>msg db2. Commit (MkdirFails ''permission denied'')
                     (staged_tx ''test'' ''1'' (Some alice), NewDatabase)
                   = Inr (Some (IOError msg),
                          ((staged_tx ''test'' ''1'' (Some alice))\<lparr>committed := True\<rparr>, db2))
          \<and> data db2 = data db_alice \<and> cache db2 = cache db_alice
          \<and> disk db2 = disk NewDatabase)"
proof -
  have a: "\<not> readOnly (staged_tx ''test'' ''1'' (Some alice))" by (simp add: staged_tx_def)
  have b: "MkdirFails ''permission denied'' \<noteq> SaveOk" by simp
  note c = Commit_alice_fresh
  from Commit_save_failure_keeps_changes [OF a b c] a b c show ?thesis by auto
qed




text \<open>
  C5 (Commit panics on a staged delete of an indexed type). For every write transaction
  whose overlay holds a tombstone for some id of an entity type with at least one
  registered index, and for every outcome of the file system, \<open>Commit\<close> does not return:
  it panics in \<open>reflect.Value.Elem\<close>, called on the nil entity by the index loop.
\<close>

theorem Commit_panics_on_tombstone_of_indexed_type:
  assumes "\<not> readOnly tx"
    and "(entityType, entities) \<in> set (changes tx)"
    and "(i, None) \<in> set entities"
    and "indexed db entityType"
  shows "Commit io (tx, db) = Inl ElemOnZeroValue"
  using assms by (simp add: Commit_def apply_changes_tombstone)

theorem Commit_panics_on_tombstone_of_indexed_type_witness:
  "\<not> readOnly (staged_tx ''test'' ''1'' None)
   \<and> (''test'', [(''1'', None)]) \<in> set (changes (staged_tx ''test'' ''1'' None))
   \<and> (''1'', None) \<in> set [(''1'', None :: entity option)]
   \<and> indexed db_alice_indexed ''test''
   \<and> Commit SaveOk (staged_tx ''test'' ''1'' None, db_alice_indexed) = Inl ElemOnZeroValue"
proof -
  have a: "\<not> readOnly (staged_tx ''test'' ''1'' None)" by (simp add: staged_tx_def)
  have b: "(''test'', [(''1'', None)]) \<in> set (changes (staged_tx ''test'' ''1'' None))"
    by (simp add: staged_tx_def)
  have c: "(''1'', None) \<in> set [(''1'', None :: entity option)]" by simp
  have d: "indexed db_alice_indexed ''test''"
    by (simp add: indexed_def at_key_def db_alice_indexed_def)
  from Commit_panics_on_tombstone_of_indexed_type [OF a b c d, of SaveOk] a b c d
  show ?thesis by simp
qed

text \<open>
  C6 (read your committed writes), at a failing input. The record \<open>admin7\<close> is set under
  the type \<open>user:admin\<close> and committed; later the record \<open>guest\<close>, id \<open>admin:7\<close>, is set
  under the type \<open>user\<close> and committed. No commit has overridden or deleted the first
  record, and the canonical map still holds it, but both have the cache key
  \<open>user:admin:7\<close>: a new transaction's \<open>Get("user:admin", "7")\<close> returns \<open>guest\<close>.
\<close>

theorem Get_returns_other_record_with_same_cache_key:
  "Set no_hooks ''user:admin'' (Some admin7) (Transact False, NewDatabase)
     = Inr (None, (staged_tx ''user:admin'' ''7'' (Some admin7), NewDatabase))
   \<and> Commit SaveOk (staged_tx ''user:admin'' ''7'' (Some admin7), NewDatabase)
     = Inr (None, ((staged_tx ''user:admin'' ''7'' (Some admin7))\<lparr>committed := True\<rparr>, db_admin))
   \<and> Set no_hooks ''user'' (Some guest) (Transact False, db_admin)
     = Inr (None, (staged_tx ''user'' ''admin:7'' (Some guest), db_admin))
   \<and> Commit SaveOk (staged_tx ''user'' ''admin:7'' (Some guest), db_admin)
     = Inr (None, ((staged_tx ''user'' ''admin:7'' (Some guest))\<lparr>committed := True\<rparr>, db_admin_guest))
   \<and> record_at db_admin_guest ''user:admin'' ''7'' = Some admin7
   \<and> Get ''user:admin'' ''7'' (Transact True) db_admin_guest = ((Some guest, True), db_admin_guest)
   \<and> guest \<noteq> admin7"
  by (simp add: run_simps db_admin_def db_admin_guest_def admin7_def guest_def record_at_def)




text \<open>
  C8 (Migrate is idempotent in its target), as stated, fails for a registration that
  is not in ascending order: with version 2 registered before version 1, the first
  \<open>Migrate(2)\<close> succeeds and leaves the marker at version 1, the version of the last
  call; the second \<open>Migrate(2)\<close> calls the up-function of version 2 again and moves the
  marker to 2.
\<close>

theorem Migrate_twice_counterexample:
  "Migrate SaveOk no_hooks migrations_2_1 2 NewDatabase
     = Inr (None, (tx_done True, db_marker 1), [2, 1])
   \<and> Migrate SaveOk no_hooks migrations_2_1 2 (db_marker 1)
     = Inr (None, (tx_done True, db_marker 2), [2])
   \<and> data (db_marker 2) \<noteq> data (db_marker 1)"
  by (simp add: run_simps migrate_simps migrations_2_1_def)

text \<open>
  C8 as amended. Let the migrations be registered in ascending version order, let the
  up-functions and the hooks only stage and keep the overlay a map, and let no post-set
  hook stage the version marker anew. After a \<open>Migrate(target)\<close> that returned success, a
  second \<open>Migrate(target)\<close> whose save succeeds returns success, calls no up-function and
  leaves the store as it is: canonical map, version marker, indexes, cache and file
  (the file is written again with the same content).
\<close>

theorem Migrate_twice_is_noop:
  assumes "sorted (map Version ms)"
    and "\<forall>m \<in> set ms. stages_only (Up m) \<and> keeps_wf (Up m)"
    and "hooks_stage_only hooks" and "hooks_keep_wf hooks"
    and "\<forall>h \<in> set (hooks ''post-set''). \<forall>ty ent. keeps_marker (h ty ent)"
    and "Migrate io hooks ms target db = Inr (None, (tx1, db1), called)"
  shows "Migrate SaveOk hooks ms target db1 = Inr (None, (tx_done True, db1), [])"
proof -
  obtain cv e0 db0 where g0: "getCurrentVersion (Transact False) db = ((cv, e0), db0)"
    by (cases "getCurrentVersion (Transact False) db") auto
  with assms(6) have e0: "e0 = None" by (cases e0) (auto simp: Migrate_def)
  from assms(6) g0 e0 obtain e w c where
    loop0: "run_migrations hooks cv target ms (Transact False, db0) = Inr (e, w, c)"
    by (auto simp: Migrate_def split: sum.splits)
  with assms(6) g0 e0 have e: "e = None" by (cases e) (auto simp: Migrate_def)
  from assms(6) g0 e0 loop0 e obtain w' where cm: "Commit io w = Inr (None, w')"
    and r: "db1 = snd w'" "called = c"
    by (auto simp: Migrate_def split: sum.splits)
  from loop0 e r have loop: "run_migrations hooks cv target ms (Transact False, db0) = Inr (None, w, called)"
    by simp
  from assms(2) have so: "\<forall>m \<in> set ms. stages_only (Up m)" and kw: "\<forall>m \<in> set ms. keeps_wf (Up m)"
    by simp_all
  from run_migrations_kept [OF so assms(3) loop] have ro: "\<not> readOnly (fst w)"
    by (simp add: Transact_def)
  from run_migrations_wf [OF kw assms(4) loop] have wf: "wf_changes (changes (fst w))"
    by (simp add: Transact_def wf_changes_empty)
  from run_migrations_called [OF loop] have all: "called = pending cv target ms" by simp
  note mk = run_migrations_marker [OF assms(5) loop]
  from cm ro obtain dbx where ap: "apply_changes (changes (fst w)) (snd w) = Inr dbx"
    and sv: "save io dbx = (None, snd w')"
    by (auto simp: Commit_def split: sum.splits prod.splits)
  from sv r have d1: "db1 = dbx\<lparr>disk := Written (data dbx)\<rparr>"
    by (auto simp: save_def split: save_io.splits)
  then have "db1\<lparr>disk := Written (data db1)\<rparr> = db1" by simp
  moreover have "\<exists>cv'. getCurrentVersion (Transact False) db1 = ((cv', None), db1)
                   \<and> pending cv' target ms = []"
  proof (cases "called = []")
    case True
    with mk have "w = (Transact False, db0)" by simp
    with ap have "dbx = db0" by (simp add: Transact_def)
    with d1 have "db1 = db0\<lparr>disk := Written (data db0)\<rparr>" by simp
    with getCurrentVersion_again [OF g0] e0
    have "getCurrentVersion (Transact False) db1 = ((cv, None), db1)" by simp
    with all True show ?thesis by auto
  next
    case False
    with mk have st: "staged (fst w) ''migration'' ''current_version''
        = Some (Some (marker (last called)))" by simp
    from cm r have "Commit io (fst w, snd w) = Inr (None, (fst w', db1))" by simp
    from Commit_installs(3) [OF ro wf this st marker_key_unshared]
    have "cache db1 (getCacheKey ''migration'' ''current_version'') = Some (marker (last called))" .
    then have "getCurrentVersion (Transact False) db1 = ((last called, None), db1)"
      by (rule getCurrentVersion_cached)
    moreover from False all pending_after_last [OF assms(1), of cv target]
    have "pending (last called) target ms = []" by simp
    ultimately show ?thesis by auto
  qed
  ultimately show ?thesis using Migrate_nothing_pending [of db1 _ db1 target ms hooks] by auto
qed

theorem Migrate_twice_is_noop_witness:
  "sorted (map Version migrations_1_2)
   \<and> stages_only set_alice_up \<and> keeps_wf set_alice_up \<and> stages_only noop_up \<and> keeps_wf noop_up
   \<and> hooks_stage_only no_hooks \<and> hooks_keep_wf no_hooks
   \<and> Migrate SaveOk no_hooks migrations_1_2 2 NewDatabase
       = Inr (None, (tx_done True, db_migrated), [1, 2])
   \<and> Migrate SaveOk no_hooks migrations_1_2 2 db_migrated
       = Inr (None, (tx_done True, db_migrated), [])"
proof -
  have s: "sorted (map Version migrations_1_2)"
    by (simp add: migrations_1_2_def AddMigration_def)
  have u: "\<forall>m \<in> set migrations_1_2. stages_only (Up m) \<and> keeps_wf (Up m)"
    by (simp add: migrations_1_2_def AddMigration_def stages_only_set_alice_up
        stages_only_noop_up keeps_wf_set_alice_up keeps_wf_noop_up)
  have p: "\<forall>h \<in> set (no_hooks ''post-set''). \<forall>ty ent. keeps_marker (h ty ent)"
    by (simp add: no_hooks_def)
  have m: "Migrate SaveOk no_hooks migrations_1_2 2 NewDatabase
       = Inr (None, (tx_done True, db_migrated), [1, 2])"
    by (simp add: run_simps migrate_simps migrations_1_2_def db_migrated_def alice_def)
  from Migrate_twice_is_noop [OF s u no_hooks_stage_only no_hooks_keep_wf p m] s m
    stages_only_set_alice_up stages_only_noop_up keeps_wf_set_alice_up keeps_wf_noop_up
    no_hooks_stage_only no_hooks_keep_wf
  show ?thesis by simp
qed

text \<open>
  C9 (OrderBy on values without an ordering capability is a query failure), at a failing
  input: the query of the README, \<open>OrderBy("ID", false)\<close> over two todos. The field \<open>ID\<close>
  is a string, a string has no \<open>Compare\<close> method, and the first comparison of the sort
  panics in the type assertion, whatever the \<open>Compare\<close> methods of other types do.
  \<open>Execute\<close> returns no error.
\<close>

theorem Execute_OrderBy_string_field_panics:
  "Commit SaveOk
      (\<lparr>readOnly = False,
        changes = [(''todo'', [(''1'', Some todo1), (''2'', Some todo2)])],
        committed = False\<rparr>, NewDatabase)
     = Inr (None,
        (\<lparr>readOnly = False,
          changes = [(''todo'', [(''1'', Some todo1), (''2'', Some todo2)])],
          committed = True\<rparr>, db_todos))
   \<and> GetAll ''todo'' (Transact True) db_todos = [todo1, todo2]
   \<and> Execute Compare (OrderBy ''ID'' False (NewQuery ''todo'')) (Transact True) db_todos
     = Inl NotComparable"
  by (simp add: run_simps db_todos_def todo1_def todo2_def GetAll_def Execute_def OrderBy_def
      NewQuery_def sort_Slice_def order_less_def)

text \<open>
  C10 (staging and Rollback leave the store unchanged), as stated, fails for the cache:
  \<open>Delete\<close> looks the record up through \<open>Get\<close>, and \<open>Get\<close> fills the cache from the canonical
  map. In the freshly loaded store one \<open>Delete\<close> followed by \<open>Rollback\<close> leaves the entry
  \<open>test:1\<close> in the cache, which was empty before.
\<close>

theorem Rollback_cache_counterexample:
  "Delete no_hooks ''test'' ''1'' (Transact False, db_loaded)
     = Inr (None, (staged_tx ''test'' ''1'' None, db_loaded\<lparr>cache := [''test:1'' \<mapsto> loaded_entity]\<rparr>))
   \<and> Rollback (staged_tx ''test'' ''1'' None) = Transact False
   \<and> cache db_loaded ''test:1'' = None
   \<and> cache (db_loaded\<lparr>cache := [''test:1'' \<mapsto> loaded_entity]\<rparr>) ''test:1'' = Some loaded_entity"
  by (simp add: run_simps db_loaded_def)

text \<open>
  C10 as amended. Let the registered hooks only stage. For every sequence of \<open>Set\<close> and
  \<open>Delete\<close> calls of a transaction that returns (no call panics), followed by \<open>Rollback\<close>:
  the canonical map, the indexes and the persisted file are those from before the first
  call, and the overlay is empty. The cache may have changed, but only by entries that
  are copies of records of the canonical map: nothing staged reaches it.
\<close>

theorem Rollback_after_staging_keeps_store:
  assumes "hooks_stage_only hooks"
    and "run_calls hooks calls (tx, db) = Inr (tx', db')"
  shows "data db' = data db \<and> indexes db' = indexes db \<and> disk db' = disk db
         \<and> (\<forall>k. cache db' k = cache db k \<or>
                (\<exists>entityType i. k = getCacheKey entityType i \<and> record_at db entityType i \<noteq> None
                    \<and> cache db' k = record_at db entityType i))
         \<and> changes (Rollback tx') = []"
proof -
  from run_calls_kept [OF assms] have "store_kept db db'" by simp
  then show ?thesis by (simp add: store_kept_def Rollback_def)
qed

theorem Rollback_after_staging_keeps_store_witness:
  "hooks_stage_only no_hooks
   \<and> run_calls no_hooks [CallDelete ''test'' ''1'', CallSet ''test'' (Some alice)]
        (Transact False, db_loaded)
       = Inr (staged_tx ''test'' ''1'' (Some alice), db_loaded\<lparr>cache := [''test:1'' \<mapsto> loaded_entity]\<rparr>)
   \<and> data (db_loaded\<lparr>cache := [''test:1'' \<mapsto> loaded_entity]\<rparr>) = data db_loaded
   \<and> indexes (db_loaded\<lparr>cache := [''test:1'' \<mapsto> loaded_entity]\<rparr>) = indexes db_loaded
   \<and> disk (db_loaded\<lparr>cache := [''test:1'' \<mapsto> loaded_entity]\<rparr>) = disk db_loaded
   \<and> changes (Rollback (staged_tx ''test'' ''1'' (Some alice))) = []"
proof -
  have r: "run_calls no_hooks [CallDelete ''test'' ''1'', CallSet ''test'' (Some alice)]
        (Transact False, db_loaded)
       = Inr (staged_tx ''test'' ''1'' (Some alice), db_loaded\<lparr>cache := [''test:1'' \<mapsto> loaded_entity]\<rparr>)"
    by (simp add: run_simps db_loaded_def alice_def)
  from Rollback_after_staging_keeps_store [OF no_hooks_stage_only r] no_hooks_stage_only r
  show ?thesis by simp
qed

end
